theory Spec2Isabelle
  imports Main "HOL-Library.Word" "HOL-Library.AList" "HOL-Library.Multiset"
begin

unbundle bit_operations_syntax

section \<open>Transport header codec (pkg/headers/transport.go)\<close>

subsection \<open>Go standard library functions used by the codec\<close>

text \<open>
  Go strings are byte strings; they are modelled as \<open>string\<close> (a list of 8-bit
  characters). Go's \<open>int\<close> and \<open>int64\<close> are 64-bit two's complement words,
  read with \<open>sint\<close>.
\<close>

type_synonym byte = "8 word"
type_synonym go_int = "64 word"

text \<open>\<open>strings.Split(s, sep)\<close> for a one-character separator.\<close>

fun Split :: "string \<Rightarrow> char \<Rightarrow> string list" where
  "Split [] sep = [[]]"
| "Split (c # cs) sep =
     (if c = sep then [] # Split cs sep
      else (case Split cs sep of [] \<Rightarrow> [[c]] | p # ps \<Rightarrow> (c # p) # ps))"

text \<open>\<open>strings.Join(elems, sep)\<close>.\<close>

fun Join :: "string list \<Rightarrow> string \<Rightarrow> string" where
  "Join [] sep = []"
| "Join [x] sep = x"
| "Join (x # y # ys) sep = x @ sep @ Join (y # ys) sep"

definition is_digit :: "char \<Rightarrow> bool" where
  "is_digit c \<longleftrightarrow> 48 \<le> (of_char c :: nat) \<and> (of_char c :: nat) \<le> 57"

definition digit_val :: "char \<Rightarrow> int" where
  "digit_val c = int (of_char c) - 48"

definition digit_char :: "nat \<Rightarrow> char" where
  "digit_char d = char_of (48 + d)"

text \<open>
  \<open>strconv.ParseUint(s, 10, 64)\<close> without its range check (\<open>ParseInt\<close> below
  checks the range of the result): a non-empty run of decimal digits.
\<close>

fun parse_digits :: "int \<Rightarrow> string \<Rightarrow> int option" where
  "parse_digits acc [] = Some acc"
| "parse_digits acc (c # cs) =
     (if is_digit c then parse_digits (acc * 10 + digit_val c) cs else None)"

definition ParseUint :: "string \<Rightarrow> int option" where
  "ParseUint s = (if s = [] then None else parse_digits 0 s)"

text \<open>
  \<open>strconv.ParseInt(s, 10, 64)\<close>: an optional sign, then decimal digits; the value
  must fit an \<open>int64\<close>. \<open>None\<close> stands for the \<open>*NumError\<close> (syntax or range),
  which the callers here do not tell apart.
\<close>

definition ParseInt :: "string \<Rightarrow> int option" where
  "ParseInt s =
     (case s of
        [] \<Rightarrow> None
      | c # cs \<Rightarrow>
          (let neg = (c = CHR ''-'');
               ds = (if c = CHR ''+'' \<or> c = CHR ''-'' then cs else s)
           in case ParseUint ds of
                None \<Rightarrow> None
              | Some un \<Rightarrow>
                  if \<not> neg \<and> un \<ge> 2 ^ 63 then None
                  else if neg \<and> un > 2 ^ 63 then None
                  else Some (if neg then - un else un)))"

text \<open>\<open>strconv.FormatInt(i, 10)\<close>.\<close>

fun format_nat :: "nat \<Rightarrow> string" where
  "format_nat n =
     (if n < 10 then [digit_char n] else format_nat (n div 10) @ [digit_char (n mod 10)])"

declare format_nat.simps [simp del]

definition FormatInt :: "int \<Rightarrow> string" where
  "FormatInt i = (if i < 0 then CHR ''-'' # format_nat (nat (- i)) else format_nat (nat i))"

text \<open>\<open>encoding/hex\<close>: \<open>EncodeToString\<close> writes two lower-case digits per byte;
  \<open>DecodeString\<close> accepts digits of either case and fails on an odd length or on any
  other character.\<close>

definition hextable :: string where
  "hextable = ''0123456789abcdef''"

definition EncodeToString :: "byte list \<Rightarrow> string" where
  "EncodeToString bs =
     concat (map (\<lambda>b. [hextable ! unat (drop_bit 4 b), hextable ! unat (b AND 0x0f)]) bs)"

definition fromHexChar :: "char \<Rightarrow> byte option" where
  "fromHexChar c =
     (let n = (of_char c :: nat) in
      if 48 \<le> n \<and> n \<le> 57 then Some (of_nat (n - 48))
      else if 97 \<le> n \<and> n \<le> 102 then Some (of_nat (n - 97 + 10))
      else if 65 \<le> n \<and> n \<le> 70 then Some (of_nat (n - 65 + 10))
      else None)"

fun DecodeString :: "string \<Rightarrow> byte list option" where
  "DecodeString [] = Some []"
| "DecodeString [p] = None"
| "DecodeString (p # q # rest) =
     (case fromHexChar p of
        None \<Rightarrow> None
      | Some a \<Rightarrow>
          (case fromHexChar q of
             None \<Rightarrow> None
           | Some b \<Rightarrow>
               (case DecodeString rest of
                  None \<Rightarrow> None
                | Some bs \<Rightarrow> Some ((push_bit 4 a OR b) # bs))))"

text \<open>\<open>strings.ToUpper\<close> and \<open>strings.ToLower\<close> on ASCII letters (the only
  characters they change in the strings handled here).\<close>

definition upper_char :: "char \<Rightarrow> char" where
  "upper_char c =
     (let n = (of_char c :: nat) in if 97 \<le> n \<and> n \<le> 122 then char_of (n - 32) else c)"

definition lower_char :: "char \<Rightarrow> char" where
  "lower_char c =
     (let n = (of_char c :: nat) in if 65 \<le> n \<and> n \<le> 90 then char_of (n + 32) else c)"

definition ToUpper :: "string \<Rightarrow> string" where
  "ToUpper s = map upper_char s"

definition ToLower :: "string \<Rightarrow> string" where
  "ToLower s = map lower_char s"

text \<open>\<open>strings.TrimLeft(s, " ")\<close>, \<open>strings.TrimPrefix(s, "\"")\<close> and
  \<open>strings.TrimSuffix(s, "\"")\<close>.\<close>

definition TrimLeft :: "string \<Rightarrow> char \<Rightarrow> string" where
  "TrimLeft s c = dropWhile (\<lambda>x. x = c) s"

definition TrimPrefix :: "string \<Rightarrow> char \<Rightarrow> string" where
  "TrimPrefix s c = (case s of [] \<Rightarrow> [] | x # xs \<Rightarrow> if x = c then xs else s)"

definition TrimSuffix :: "string \<Rightarrow> char \<Rightarrow> string" where
  "TrimSuffix s c = (if s \<noteq> [] \<and> last s = c then butlast s else s)"

text \<open>\<open>binary.BigEndian.PutUint32\<close>.\<close>

definition PutUint32 :: "32 word \<Rightarrow> byte list" where
  "PutUint32 v = [ucast (drop_bit 24 v), ucast (drop_bit 16 v), ucast (drop_bit 8 v), ucast v]"

subsection \<open>The header\<close>

datatype TransportMode = TransportModePlay | TransportModeRecord

record Transport =
  InterleavedIDs :: "(go_int \<times> go_int) option"
  SSRC :: "32 word option"
  Mode :: "TransportMode option"

datatype error =
    ErrPortsInvalid string
  | ErrTransportValueMissing
  | ErrTransportMultipleValues
  | ErrTransportInvalidMode string
  | ErrTransportProtocolNotFound
  | ErrKeyVal

text \<open>\<open>parsePorts\<close>. On an error the Go function also returns a pointer to
  \<open>{0, 0}\<close>, which its caller drops.\<close>

definition parsePorts :: "string \<Rightarrow> error + (go_int \<times> go_int)" where
  "parsePorts val =
     (case Split val CHR ''-'' of
        [p1, p2] \<Rightarrow>
          (case ParseInt p1 of
             None \<Rightarrow> Inl (ErrPortsInvalid val)
           | Some port1 \<Rightarrow>
               (case ParseInt p2 of
                  None \<Rightarrow> Inl (ErrPortsInvalid val)
                | Some port2 \<Rightarrow> Inr (word_of_int port1, word_of_int port2)))
      | [p1] \<Rightarrow>
          (case ParseInt p1 of
             None \<Rightarrow> Inl (ErrPortsInvalid val)
           | Some port1 \<Rightarrow> Inr (word_of_int port1, word_of_int port1 + 1))
      | _ \<Rightarrow> Inl (ErrPortsInvalid val))"

text \<open>
  Modelled from the spec: \<open>keyValParse\<close> (package \<open>headers\<close>, its file is not part of
  the sources at hand). The spec says of it only that the header value is a
  semicolon-separated key/value list. An item is \<open>key\<close> or \<open>key=value\<close>; the result is
  a Go map, so a key that occurs again replaces the earlier value. The map is kept as an
  association list with distinct keys.
\<close>

definition parse_item :: "string \<Rightarrow> string \<times> string" where
  "parse_item item =
     (takeWhile (\<lambda>c. c \<noteq> CHR ''='') item, drop 1 (dropWhile (\<lambda>c. c \<noteq> CHR ''='') item))"

definition keyValParse :: "string \<Rightarrow> char \<Rightarrow> error + (string \<times> string) list" where
  "keyValParse str sep =
     Inr (foldl (\<lambda>ret item. case parse_item item of (k, v) \<Rightarrow>
                   if k = [] then ret else AList.update k v ret)
            [] (Split str sep))"

text \<open>
  The ssrc case of \<open>Unmarshal\<close>: the value is trimmed, padded to an even length and
  decoded; a value that does not decode, or decodes to more than four bytes, is skipped.
\<close>

definition ssrc_bytes :: "string \<Rightarrow> byte list option" where
  "ssrc_bytes v0 =
     (let v = TrimLeft v0 CHR '' '';
          v = (if length v mod 2 \<noteq> 0 then CHR ''0'' # v else v)
      in DecodeString v)"

definition ssrc_value :: "byte list \<Rightarrow> 32 word" where
  "ssrc_value tmp =
     (let ssrc = replicate (4 - length tmp) 0 @ tmp
      in push_bit 24 (ucast (ssrc ! 0)) OR push_bit 16 (ucast (ssrc ! 1))
         OR push_bit 8 (ucast (ssrc ! 2)) OR ucast (ssrc ! 3))"

definition unmarshal_ssrc :: "string \<Rightarrow> Transport \<Rightarrow> Transport" where
  "unmarshal_ssrc v h =
     (case ssrc_bytes v of
        Some tmp \<Rightarrow> if length tmp \<le> 4 then h\<lparr>SSRC := Some (ssrc_value tmp)\<rparr> else h
      | None \<Rightarrow> h)"

definition unmarshal_mode :: "string \<Rightarrow> Transport \<Rightarrow> error + Transport" where
  "unmarshal_mode v h =
     (let str = ToLower v;
          str = TrimPrefix str CHR 0x22;
          str = TrimSuffix str CHR 0x22
      in if str = ''play'' then Inr (h\<lparr>Mode := Some TransportModePlay\<rparr>)
         else if str = ''record'' \<or> str = ''receive'' then Inr (h\<lparr>Mode := Some TransportModeRecord\<rparr>)
         else Inl (ErrTransportInvalidMode str))"

text \<open>
  One round of the loop over the parsed map: the state is the header being filled and
  the \<open>protocolFound\<close> flag.
\<close>

definition unmarshal_entry ::
  "string \<times> string \<Rightarrow> Transport \<times> bool \<Rightarrow> error + (Transport \<times> bool)" where
  "unmarshal_entry kv st =
     (case kv of (k, v) \<Rightarrow> case st of (h, protocolFound) \<Rightarrow>
        if k = ''RTP/AVP/TCP'' then Inr (h, True)
        else if k = ''interleaved'' then
          (case parsePorts v of
             Inl e \<Rightarrow> Inl e
           | Inr ports \<Rightarrow> Inr (h\<lparr>InterleavedIDs := Some ports\<rparr>, protocolFound))
        else if k = ''ssrc'' then Inr (unmarshal_ssrc v h, protocolFound)
        else if k = ''mode'' then
          (case unmarshal_mode v h of
             Inl e \<Rightarrow> Inl e
           | Inr h' \<Rightarrow> Inr (h', protocolFound))
        else Inr (h, protocolFound))"

text \<open>
  The loop \<open>for k, rv := range kvs\<close>. Go visits the keys of a map in an unspecified
  order; the model visits them in the order of the association list. The keys are
  distinct and each case writes its own field, so a run without error ends in the same
  header whatever the order (this is proved below, as \<open>unmarshal_loop_order\<close>).
\<close>

fun unmarshal_loop ::
  "(string \<times> string) list \<Rightarrow> Transport \<times> bool \<Rightarrow> error + (Transport \<times> bool)" where
  "unmarshal_loop [] st = Inr st"
| "unmarshal_loop (kv # kvs) st =
     (case unmarshal_entry kv st of
        Inl e \<Rightarrow> Inl e
      | Inr st' \<Rightarrow> unmarshal_loop kvs st')"

text \<open>
  \<open>Transport.Unmarshal\<close>: \<open>h\<close> is the receiver before the call, \<open>v\<close> the header value
  (a list of strings). The result is the error or the receiver after the call.
\<close>

definition Unmarshal :: "Transport \<Rightarrow> string list \<Rightarrow> error + Transport" where
  "Unmarshal h v =
     (case v of
        [] \<Rightarrow> Inl ErrTransportValueMissing
      | [v0] \<Rightarrow>
          (case keyValParse v0 CHR '';'' of
             Inl e \<Rightarrow> Inl e
           | Inr kvs \<Rightarrow>
               (case unmarshal_loop kvs (h, False) of
                  Inl e \<Rightarrow> Inl e
                | Inr (h', protocolFound) \<Rightarrow>
                    if \<not> protocolFound then Inl ErrTransportProtocolNotFound else Inr h'))
      | _ \<Rightarrow> Inl ErrTransportMultipleValues)"

text \<open>\<open>Transport.Marshal\<close>.\<close>

definition Marshal :: "Transport \<Rightarrow> string list" where
  "Marshal h =
     (let rets = [''RTP/AVP/TCP''];
          rets = (case InterleavedIDs h of
                    None \<Rightarrow> rets
                  | Some (id0, id1) \<Rightarrow>
                      rets @ [''interleaved='' @ FormatInt (sint id0) @ ''-'' @ FormatInt (sint id1)]);
          rets = (case SSRC h of
                    None \<Rightarrow> rets
                  | Some s \<Rightarrow> rets @ [''ssrc='' @ ToUpper (EncodeToString (PutUint32 s))]);
          rets = (case Mode h of
                    None \<Rightarrow> rets
                  | Some m \<Rightarrow>
                      if m = TransportModePlay then rets @ [''mode=play'']
                      else rets @ [''mode=record''])
      in [Join rets '';''])"

definition zero_Transport :: Transport where
  "zero_Transport = \<lparr>InterleavedIDs = None, SSRC = None, Mode = None\<rparr>"

text \<open>
  The values a header can carry. The grammar \<open>interleaved=<a>-<b>\<close> has no sign, so
  the two channel ids are not negative; every 32-bit ssrc and both modes are carried.
  (\<open>TransportMode\<close> is an \<open>int\<close> in Go; \<open>Marshal\<close> writes every value other
  than \<open>TransportModePlay\<close> as \<open>mode=record\<close>, so the two named constants are the
  modes that can be told apart.)
\<close>

definition representable :: "Transport \<Rightarrow> bool" where
  "representable t =
     (case InterleavedIDs t of None \<Rightarrow> True | Some (id0, id1) \<Rightarrow> 0 \<le> sint id0 \<and> 0 \<le> sint id1)"

text \<open>The list \<open>rets\<close> that \<open>Marshal\<close> joins.\<close>

definition marshal_items :: "Transport \<Rightarrow> string list" where
  "marshal_items h =
     ''RTP/AVP/TCP'' #
     (case InterleavedIDs h of None \<Rightarrow> []
      | Some (id0, id1) \<Rightarrow> [''interleaved='' @ FormatInt (sint id0) @ ''-'' @ FormatInt (sint id1)]) @
     (case SSRC h of None \<Rightarrow> [] | Some s \<Rightarrow> [''ssrc='' @ ToUpper (EncodeToString (PutUint32 s))]) @
     (case Mode h of None \<Rightarrow> []
      | Some m \<Rightarrow> [if m = TransportModePlay then ''mode=play'' else ''mode=record''])"

section \<open>RTP/MPEG4-audio decoder (pkg/rtpmpeg4audio/decoder.go)\<close>

type_synonym u64 = "64 word"

text \<open>The fields of an RTP packet that the decoder reads.\<close>

record Packet =
  Marker :: bool
  Timestamp :: "32 word"
  Payload :: "byte list"

text \<open>
  The error values of the package. \<open>ErrReadBits\<close> is the error of \<open>bits.ReadBits\<close>,
  which \<open>readAUHeaders\<close> returns as it is; \<open>ErrADTSDecode\<close> is the error
  "unable to decode ADTS" that wraps the error of \<open>ADTSPackets.Unmarshal\<close>;
  \<open>Panic\<close> is a run-time panic of Go (an index or a slice bound out of range, a
  negative length given to \<open>make\<close>). The field \<open>AUsize\<close> of \<open>AUsizeToBigError\<close> is a Go
  \<open>int\<close>.
\<close>

datatype decode_error =
    ErrMorePacketsNeeded
  | ErrShortPayload
  | ErrAUinvalidLength
  | ErrAUindexNotZero
  | ErrAUindexDeltaNotZero
  | ErrFragMultipleAU
  | ErrADTSmultipleAU
  | ErrMultipleADTS
  | AUsizeToBigError go_int
  | ErrReadBits
  | ErrADTSDecode
  | Panic

text \<open>
  The decoder calls into three packages whose files are not part of the sources at hand,
  and reads one constant of them. They are parameters of the model:
  \<^item> \<open>ReadBits buf pos n\<close> is \<open>bits.ReadBits(buf, &pos, n)\<close>: the value read and the
    new position, or \<open>None\<close> for an error;
  \<^item> \<open>ADTSUnmarshal buf\<close> is \<open>ADTSPackets.Unmarshal(buf)\<close>: the field \<open>AU\<close> of each
    packet found, or \<open>None\<close> for an error;
  \<^item> \<open>MaxAccessUnitSize\<close> is the constant \<open>mpeg4audio.MaxAccessUnitSize\<close>, which the
    decoder compares with an \<open>int\<close>, so it is a value of \<open>int\<close>;
  \<^item> \<open>timeDecode td ts\<close> is \<open>rtptimedec.Decoder.Decode(ts)\<close> on a time decoder in
    state \<open>td\<close>: the duration returned and the new state.
\<close>

record 't deps =
  ReadBits :: "byte list \<Rightarrow> go_int \<Rightarrow> go_int \<Rightarrow> (u64 \<times> go_int) option"
  ADTSUnmarshal :: "byte list \<Rightarrow> byte list list option"
  MaxAccessUnitSize :: go_int
  timeDecode :: "'t \<Rightarrow> 32 word \<Rightarrow> int \<times> 't"

text \<open>
  The decoder. A Go \<open>int\<close> is a word of 64 bits, read as a signed number by \<open>sint\<close>:
  the additions and subtractions of the code wrap around, the comparisons are those of
  the signed values, and the conversion \<open>int(x)\<close> of a \<open>uint64\<close> keeps the bits. The
  fragments are slices of the payloads of the packets decoded so far; the model holds
  their contents, as they stay when the caller leaves the payload of a decoded packet as
  it is.
\<close>

record 't Decoder =
  SampleRate :: go_int
  SizeLength :: go_int
  IndexLength :: go_int
  IndexDeltaLength :: go_int
  timeDecoder :: 't
  firstAUParsed :: bool
  adtsMode :: bool
  fragments :: "byte list list"
  fragmentedSize :: go_int

text \<open>
  The first loop of \<open>readAUHeaders\<close>, which counts the AU-headers:
  \<^verbatim>\<open>for i := 0; i < headersLen; { if i == 0 {...} else {...}; count++ }\<close>
  (\<open>cnt\<close> is the variable \<open>count\<close>).
  Nothing bounds the number of rounds (the lengths may add up to zero, and the index may
  wrap around), so the loop is a partial function: \<open>None\<close> is a loop that runs forever.
\<close>

partial_function (option) count_loop ::
  "go_int \<Rightarrow> go_int \<Rightarrow> go_int \<Rightarrow> go_int \<Rightarrow> go_int \<Rightarrow> go_int \<Rightarrow> go_int option" where
  "count_loop sizeLength indexLength indexDeltaLength headersLen i cnt =
     (if sint i < sint headersLen then
        count_loop sizeLength indexLength indexDeltaLength headersLen
          (if i = 0 then i + sizeLength + indexLength else i + sizeLength + indexDeltaLength)
          (cnt + 1)
      else Some cnt)"

declare count_loop.simps [code]

text \<open>
  The body of the second loop up to the store into \<open>dataLens\<close>: one AU-header is read.
  The result is the AU size, the new bit position and the new value of \<open>headersLen\<close>.
\<close>

definition read_header ::
  "'t deps \<Rightarrow> ('t, 'x) Decoder_scheme \<Rightarrow> byte list \<Rightarrow> go_int \<Rightarrow> go_int \<Rightarrow> bool \<Rightarrow>
     decode_error + (u64 \<times> go_int \<times> go_int)" where
  "read_header E d buf headersLen pos firstRead =
     (case ReadBits E buf pos (SizeLength d) of
        None \<Rightarrow> Inl ErrReadBits
      | Some (dataLen, pos1) \<Rightarrow>
          (let headersLen1 = headersLen - SizeLength d in
           if \<not> firstRead then
             (if sint (IndexLength d) > 0 then
                (case ReadBits E buf pos1 (IndexLength d) of
                   None \<Rightarrow> Inl ErrReadBits
                 | Some (auIndex, pos2) \<Rightarrow>
                     if auIndex \<noteq> 0 then Inl ErrAUindexNotZero
                     else Inr (dataLen, pos2, headersLen1 - IndexLength d))
              else Inr (dataLen, pos1, headersLen1))
           else if sint (IndexDeltaLength d) > 0 then
             (case ReadBits E buf pos1 (IndexDeltaLength d) of
                None \<Rightarrow> Inl ErrReadBits
              | Some (auIndexDelta, pos2) \<Rightarrow>
                  if auIndexDelta \<noteq> 0 then Inl ErrAUindexDeltaNotZero
                  else Inr (dataLen, pos2, headersLen1 - IndexDeltaLength d))
           else Inr (dataLen, pos1, headersLen1)))"

text \<open>
  The second loop, \<^verbatim>\<open>for headersLen > 0 { ...; dataLens[i] = dataLen; i++ }\<close>. The store
  panics when \<open>i\<close> is not an index of \<open>dataLens\<close>, so the loop makes at most
  \<open>len(dataLens)\<close> rounds.
\<close>

function read_loop ::
  "'t deps \<Rightarrow> ('t, 'x) Decoder_scheme \<Rightarrow> byte list \<Rightarrow> go_int \<Rightarrow> go_int \<Rightarrow> bool \<Rightarrow> nat \<Rightarrow> u64 list \<Rightarrow>
     decode_error + u64 list" where
  "read_loop E d buf headersLen pos firstRead i dataLens =
     (if sint headersLen > 0 then
        (case read_header E d buf headersLen pos firstRead of
           Inl e \<Rightarrow> Inl e
         | Inr (dataLen, pos', headersLen') \<Rightarrow>
             if i < length dataLens
             then read_loop E d buf headersLen' pos' True (Suc i) (dataLens[i := dataLen])
             else Inl Panic)
      else Inr dataLens)"
  by pat_completeness auto
termination
  by (relation "measure (\<lambda>(E, d, buf, headersLen, pos, firstRead, i, dataLens). length dataLens - i)") auto

declare read_loop.simps [simp del]

text \<open>
  \<open>readAUHeaders\<close>: the two loops, with \<^verbatim>\<open>dataLens := make([]uint64, count)\<close> between
  them, which panics when \<open>count\<close> is negative. Memory has no bound in the model: a
  slice of every length that is not negative is made.
\<close>

definition readAUHeaders ::
  "'t deps \<Rightarrow> ('t, 'x) Decoder_scheme \<Rightarrow> byte list \<Rightarrow> go_int \<Rightarrow> (decode_error + u64 list) option" where
  "readAUHeaders E d buf headersLen =
     (case count_loop (SizeLength d) (IndexLength d) (IndexDeltaLength d) headersLen 0 0 of
        None \<Rightarrow> None
      | Some cnt \<Rightarrow>
          if sint cnt < 0 then Some (Inl Panic)
          else Some (read_loop E d buf headersLen 0 False 0 (replicate (nat (sint cnt)) 0)))"

text \<open>
  \<open>finalize\<close>. The result is the decoder after the call and the error or the AUs.
\<close>

definition finalize ::
  "'t deps \<Rightarrow> 't Decoder \<Rightarrow> byte list list \<Rightarrow> 't Decoder \<times> (decode_error + byte list list)" where
  "finalize E d aus =
     (if \<not> firstAUParsed d then
        (let d1 = d\<lparr>firstAUParsed := True\<rparr> in
         if length aus = 1 \<and> length (aus ! 0) \<ge> 2 then
           (if aus ! 0 ! 0 = 0xFF \<and> (aus ! 0 ! 1) AND 0xF0 = 0xF0 then
              (case ADTSUnmarshal E (aus ! 0) of
                 Some [au] \<Rightarrow> (d1\<lparr>adtsMode := True\<rparr>, Inr (aus[0 := au]))
               | _ \<Rightarrow> (d1, Inr aus))
            else (d1, Inr aus))
         else (d1, Inr aus))
      else if adtsMode d then
        (if length aus \<noteq> 1 then (d, Inl ErrADTSmultipleAU)
         else
           (case ADTSUnmarshal E (aus ! 0) of
              None \<Rightarrow> (d, Inl ErrADTSDecode)
            | Some pkts \<Rightarrow>
                if length pkts \<noteq> 1 then (d, Inl ErrMultipleADTS)
                else (d, Inr (aus[0 := pkts ! 0]))))
      else (d, Inr aus))"

text \<open>
  The end of both decoding paths: \<open>finalize\<close>, then the time of the packet.
\<close>

definition finalize_and_time ::
  "'t deps \<Rightarrow> 't Decoder \<Rightarrow> byte list list \<Rightarrow> Packet \<Rightarrow>
     't Decoder \<times> (decode_error + (byte list list \<times> int))" where
  "finalize_and_time E d aus pkt =
     (case finalize E d aus of
        (d', Inl e) \<Rightarrow> (d', Inl e)
      | (d', Inr aus') \<Rightarrow>
          (case timeDecode E (timeDecoder d') (Timestamp pkt) of
             (pts, td') \<Rightarrow> (d'\<lparr>timeDecoder := td'\<rparr>, Inr (aus', pts))))"

text \<open>
  The reassembly \<^verbatim>\<open>ret := make([]byte, d.fragmentedSize); for ... { n += copy(ret[n:], p) }\<close>:
  the fragments one after the other, cut or filled with zero bytes to the size.
\<close>

definition join_fragments :: "go_int \<Rightarrow> byte list list \<Rightarrow> byte list" where
  "join_fragments sz frags =
     take (nat (sint sz)) (concat frags) @ replicate (nat (sint sz) - length (concat frags)) 0"

text \<open>
  \<open>decodeFragmented\<close>. \<^verbatim>\<open>d.fragmentedSize += int(dataLens[0])\<close> is an addition of words,
  which wraps around; \<^verbatim>\<open>payload[:dataLens[0]]\<close> panics when the unsigned size is above
  the length, and \<open>make\<close> panics on a negative size.
\<close>

definition decodeFragmented ::
  "'t deps \<Rightarrow> 't Decoder \<Rightarrow> u64 list \<Rightarrow> byte list \<Rightarrow> Packet \<Rightarrow>
     't Decoder \<times> (decode_error + (byte list list \<times> int))" where
  "decodeFragmented E d dataLens payload pkt =
     (if length dataLens \<noteq> 1 then (d\<lparr>fragments := []\<rparr>, Inl ErrFragMultipleAU)
      else if int (length payload) < sint (dataLens ! 0) then (d, Inl ErrShortPayload)
      else
        (let d1 = d\<lparr>fragmentedSize := fragmentedSize d + dataLens ! 0\<rparr> in
         if sint (fragmentedSize d1) > sint (MaxAccessUnitSize E)
         then (d1\<lparr>fragments := []\<rparr>, Inl (AUsizeToBigError (fragmentedSize d1)))
         else if unat (dataLens ! 0) > length payload then (d1, Inl Panic)
         else
           (let d2 = d1\<lparr>fragments := fragments d1 @ [take (unat (dataLens ! 0)) payload]\<rparr> in
            if \<not> Marker pkt then (d2, Inl ErrMorePacketsNeeded)
            else if sint (fragmentedSize d2) < 0 then (d2, Inl Panic)
            else
              (let ret = join_fragments (fragmentedSize d2) (fragments d2);
                   aus = [ret];
                   d3 = d2\<lparr>fragments := []\<rparr>
               in finalize_and_time E d3 aus pkt))))"

text \<open>
  The loop of the marker case of \<open>decodeUnfragmented\<close>, which cuts the AUs out of the
  payload.
\<close>

fun split_aus :: "byte list \<Rightarrow> u64 list \<Rightarrow> decode_error + byte list list" where
  "split_aus payload [] = Inr []"
| "split_aus payload (dataLen # dataLens) =
     (if int (length payload) < sint dataLen then Inl ErrShortPayload
      else if unat dataLen > length payload then Inl Panic
      else
        (case split_aus (drop (unat dataLen) payload) dataLens of
           Inl e \<Rightarrow> Inl e
         | Inr aus \<Rightarrow> Inr (take (unat dataLen) payload # aus)))"

definition decodeUnfragmented ::
  "'t deps \<Rightarrow> 't Decoder \<Rightarrow> u64 list \<Rightarrow> byte list \<Rightarrow> Packet \<Rightarrow>
     't Decoder \<times> (decode_error + (byte list list \<times> int))" where
  "decodeUnfragmented E d dataLens payload pkt =
     (if Marker pkt then
        (case split_aus payload dataLens of
           Inl e \<Rightarrow> (d, Inl e)
         | Inr aus \<Rightarrow> finalize_and_time E d aus pkt)
      else if length dataLens \<noteq> 1 then (d, Inl ErrFragMultipleAU)
      else if int (length payload) < sint (dataLens ! 0) then (d, Inl ErrShortPayload)
      else
        (let d1 = d\<lparr>fragmentedSize := dataLens ! 0\<rparr> in
         if unat (dataLens ! 0) > length payload then (d1, Inl Panic)
         else (d1\<lparr>fragments := fragments d1 @ [take (unat (dataLens ! 0)) payload]\<rparr>,
               Inl ErrMorePacketsNeeded)))"

text \<open>
  The AU-headers-length of a packet of at least two bytes,
  \<open>int(binary.BigEndian.Uint16(pkt.Payload))\<close>, the number of bytes of the AU-header
  section, and the payload after the length and the section. The length is below
  \<open>2 ^ 16\<close>, so it is given as a number, and \<open>Decode\<close> hands it to \<open>readAUHeaders\<close> as the
  \<open>int\<close> of that value.
\<close>

definition headers_len :: "Packet \<Rightarrow> int" where
  "headers_len pkt = int (unat (Payload pkt ! 0)) * 256 + int (unat (Payload pkt ! 1))"

definition headers_bytes :: "int \<Rightarrow> int" where
  "headers_bytes headersLen = headersLen div 8 + (if headersLen mod 8 \<noteq> 0 then 1 else 0)"

definition au_data :: "Packet \<Rightarrow> byte list" where
  "au_data pkt = drop (nat (headers_bytes (headers_len pkt))) (drop 2 (Payload pkt))"

text \<open>
  \<open>Decode\<close>. The result is \<open>None\<close> when the call does not return; otherwise it is the
  decoder after the call with the error or the AUs and the time of the first one.
  \<open>ErrMorePacketsNeeded\<close> is returned as an error, as in Go.
\<close>

definition Decode ::
  "'t deps \<Rightarrow> 't Decoder \<Rightarrow> Packet \<Rightarrow>
     ('t Decoder \<times> (decode_error + (byte list list \<times> int))) option" where
  "Decode E d pkt =
     (if length (Payload pkt) < 2 then Some (d\<lparr>fragments := []\<rparr>, Inl ErrShortPayload)
      else
        (let headersLen = headers_len pkt in
         if headersLen = 0 then Some (d, Inl ErrAUinvalidLength)
         else
           (let payload = drop 2 (Payload pkt) in
            case readAUHeaders E d payload (word_of_int headersLen) of
              None \<Rightarrow> None
            | Some (Inl e) \<Rightarrow> Some (d, Inl e)
            | Some (Inr dataLens) \<Rightarrow>
                (let pos = headers_bytes headersLen in
                 if pos > int (length payload) then Some (d, Inl Panic)
                 else
                   (let payload = drop (nat pos) payload in
                    if fragments d \<noteq> [] then Some (decodeFragmented E d dataLens payload pkt)
                    else Some (decodeUnfragmented E d dataLens payload pkt))))))"

subsection \<open>Stand-ins for the absent packages, used to run examples\<close>

text \<open>
  Modelled from the spec: \<open>bits.ReadBits\<close> (package \<open>bits\<close> is not part of the sources at
  hand). The spec says that an AU-header is \<open>SizeLength\<close> bits of size followed by the
  index bits, in the framing of RFC 3640: the bits are read from the most significant
  bit of each byte on, and a read beyond the end of the buffer is an error.
\<close>

definition read_bit :: "byte list \<Rightarrow> nat \<Rightarrow> bool" where
  "read_bit buf k = bit (buf ! (k div 8)) (7 - k mod 8)"

fun bits_value :: "byte list \<Rightarrow> nat \<Rightarrow> nat \<Rightarrow> u64 \<Rightarrow> u64" where
  "bits_value buf pos n acc =
     (if n = 0 then acc
      else bits_value buf (pos + 1) (n - 1) (2 * acc + (if read_bit buf pos then 1 else 0)))"

declare bits_value.simps [simp del]

definition msb_ReadBits :: "byte list \<Rightarrow> go_int \<Rightarrow> go_int \<Rightarrow> (u64 \<times> go_int) option" where
  "msb_ReadBits buf pos n =
     (if sint n > int (length buf) * 8 - sint pos then None
      else Some (bits_value buf (nat (sint pos)) (nat (sint n)) 0, pos + n))"

text \<open>
  Modelled from the spec: \<open>ADTSPackets.Unmarshal\<close> (package \<open>mpeg4audio\<close> is not part of
  the sources at hand). The spec says that an ADTS frame begins with the sync pattern and
  wraps a payload. The stand-in reads frames with the 7-byte header of ADTS: twelve sync
  bits, and the length of the frame in the 13 bits that start at bit 30. \<open>k\<close> bounds the
  number of frames.
\<close>

definition adts_frame_len :: "byte list \<Rightarrow> nat" where
  "adts_frame_len buf =
     unat (buf ! 3 AND 0x03) * 2048 + unat (buf ! 4) * 8 + unat (drop_bit 5 (buf ! 5))"

fun adts_frames :: "nat \<Rightarrow> byte list \<Rightarrow> byte list list option" where
  "adts_frames 0 buf = None"
| "adts_frames (Suc k) buf =
     (if length buf < 8 then None
      else if buf ! 0 \<noteq> 0xFF \<or> (buf ! 1) AND 0xF0 \<noteq> 0xF0 then None
      else if adts_frame_len buf < 7 \<or> length buf < adts_frame_len buf then None
      else if length buf = adts_frame_len buf then Some [drop 7 buf]
      else
        (case adts_frames k (drop (adts_frame_len buf) buf) of
           None \<Rightarrow> None
         | Some aus \<Rightarrow> Some (take (adts_frame_len buf - 7) (drop 7 buf) # aus)))"

definition adts_Unmarshal :: "byte list \<Rightarrow> byte list list option" where
  "adts_Unmarshal buf = adts_frames (length buf) buf"

text \<open>
  A set of dependencies to run examples with: the two stand-ins, the maximum size of
  5120 bytes, and a time decoder without state that returns the timestamp.
\<close>

definition example_deps :: "unit deps" where
  "example_deps =
     \<lparr>ReadBits = msb_ReadBits, ADTSUnmarshal = adts_Unmarshal, MaxAccessUnitSize = 5120,
      timeDecode = (\<lambda>td ts. (int (unat ts), td))\<rparr>"

definition example_decoder :: "unit Decoder" where
  "example_decoder =
     \<lparr>SampleRate = 48000, SizeLength = 13, IndexLength = 3, IndexDeltaLength = 3,
      timeDecoder = (), firstAUParsed = False, adtsMode = False, fragments = [],
      fragmentedSize = 0\<rparr>"

subsection \<open>Notions used to state the properties of the decoder\<close>

text \<open>
  \<open>carries E d pkt dataLens\<close>: the packet has its two bytes of AU-headers-length, the
  length is not zero, \<open>readAUHeaders\<close> reads the sizes \<open>dataLens\<close> from the AU-header
  section, and the section lies within the payload.
\<close>

definition carries :: "'t deps \<Rightarrow> 't Decoder \<Rightarrow> Packet \<Rightarrow> u64 list \<Rightarrow> bool" where
  "carries E d pkt dataLens \<longleftrightarrow>
     2 \<le> length (Payload pkt) \<and> headers_len pkt \<noteq> 0 \<and>
     readAUHeaders E d (drop 2 (Payload pkt)) (word_of_int (headers_len pkt)) = Some (Inr dataLens) \<and>
     headers_bytes (headers_len pkt) \<le> int (length (drop 2 (Payload pkt)))"

text \<open>
  \<open>one_AU E d pkt n\<close>: the packet carries one AU-header, which declares \<open>n\<close> bytes, and
  holds that many bytes after the AU-header section. These bytes are the data region of
  the packet.
\<close>

definition one_AU :: "'t deps \<Rightarrow> 't Decoder \<Rightarrow> Packet \<Rightarrow> u64 \<Rightarrow> bool" where
  "one_AU E d pkt n \<longleftrightarrow>
     carries E d pkt [n] \<and> 0 \<le> sint n \<and> sint n \<le> int (length (au_data pkt))"

definition data_region :: "Packet \<Rightarrow> u64 \<Rightarrow> byte list" where
  "data_region pkt n = take (unat n) (au_data pkt)"

text \<open>
  \<open>adts_wrapped E au\<close>: the test of \<open>finalize\<close> on the first AU, which finds an AU that
  begins with the sync pattern and parses as one ADTS frame.
\<close>

definition adts_wrapped :: "'t deps \<Rightarrow> byte list \<Rightarrow> bool" where
  "adts_wrapped E au \<longleftrightarrow>
     2 \<le> length au \<and> au ! 0 = 0xFF \<and> (au ! 1) AND 0xF0 = 0xF0 \<and>
     (case ADTSUnmarshal E au of Some [x] \<Rightarrow> True | _ \<Rightarrow> False)"

text \<open>
  \<open>stamped E d pkt aus\<close>: the result of a \<open>Decode\<close> that returns the AUs \<open>aus\<close> from a
  decoder \<open>d\<close>: the AUs with the time that the time decoder gives for the timestamp of
  the packet, and the decoder with the time decoder after that call.
\<close>

definition stamped ::
  "'t deps \<Rightarrow> 't Decoder \<Rightarrow> Packet \<Rightarrow> byte list list \<Rightarrow>
     't Decoder \<times> (decode_error + (byte list list \<times> int))" where
  "stamped E d pkt aus =
     (case timeDecode E (timeDecoder d) (Timestamp pkt) of
        (pts, td') \<Rightarrow> (d\<lparr>timeDecoder := td'\<rparr>, Inr (aus, pts)))"

text \<open>
  \<open>delivers E d pkt n au d0\<close>: the packet has the marker and holds one AU of \<open>n\<close> bytes,
  and with it the access unit \<open>au\<close> is complete. Without a pending fragment \<open>au\<close> is the
  data region of the packet, and \<open>d0\<close> is the decoder itself. With pending fragments,
  whose number of bytes is the size counter, and a total size within the maximum, \<open>au\<close>
  is the bytes of the fragments followed by the data region, and \<open>d0\<close> is the decoder
  with the size added to the counter and without the fragments.
\<close>

definition delivers ::
  "'t deps \<Rightarrow> 't Decoder \<Rightarrow> Packet \<Rightarrow> u64 \<Rightarrow> byte list \<Rightarrow> 't Decoder \<Rightarrow> bool" where
  "delivers E d pkt n au d0 \<longleftrightarrow>
     Marker pkt \<and> one_AU E d pkt n \<and>
     (if fragments d = [] then au = data_region pkt n \<and> d0 = d
      else sint (fragmentedSize d) = int (length (concat (fragments d))) \<and>
           sint (fragmentedSize d) + sint n \<le> sint (MaxAccessUnitSize E) \<and>
           au = concat (fragments d) @ data_region pkt n \<and>
           d0 = d\<lparr>fragmentedSize := fragmentedSize d + n, fragments := []\<rparr>)"

text \<open>
  Packets for the examples. With the lengths 13 and 3 a single AU-header takes 16 bits,
  the size in its upper 13 bits.
\<close>

definition frag1 :: Packet where
  "frag1 = \<lparr>Marker = False, Timestamp = 7, Payload = [0x00, 0x10, 0x00, 0x10, 1, 2]\<rparr>"

definition frag2 :: Packet where
  "frag2 = \<lparr>Marker = True, Timestamp = 9, Payload = [0x00, 0x10, 0x00, 0x18, 3, 4, 5]\<rparr>"

text \<open>An ADTS frame of nine bytes (a header of seven bytes and the payload AA BB), cut in
  two fragments of four and five bytes.\<close>

definition adts1 :: Packet where
  "adts1 = \<lparr>Marker = False, Timestamp = 7,
             Payload = [0x00, 0x10, 0x00, 0x20, 0xFF, 0xF1, 0x50, 0x80]\<rparr>"

definition adts2 :: Packet where
  "adts2 = \<lparr>Marker = True, Timestamp = 9,
             Payload = [0x00, 0x10, 0x00, 0x28, 0x01, 0x3F, 0xFC, 0xAA, 0xBB]\<rparr>"

text \<open>A fragment of 3000 zero bytes.\<close>

definition big :: "bool \<Rightarrow> Packet" where
  "big m = \<lparr>Marker = m, Timestamp = 7, Payload = [0x00, 0x10, 0x5D, 0xC0] @ replicate 3000 0\<rparr>"

text \<open>A packet that declares an AU of 6000 bytes and holds none of them.\<close>

definition truncated :: Packet where
  "truncated = \<lparr>Marker = True, Timestamp = 9, Payload = [0x00, 0x10, 0xBB, 0x80]\<rparr>"

text \<open>A packet that carries two AU-headers, of sizes 1 and 2, and the two AUs.\<close>

definition two_aus :: Packet where
  "two_aus = \<lparr>Marker = True, Timestamp = 9, Payload = [0x00, 0x20, 0x00, 0x08, 0x00, 0x10, 1, 2, 3]\<rparr>"

text \<open>A decoder that holds the fragment \<open>[1, 2]\<close>, and the same decoder in ADTS mode.\<close>

definition pending_decoder :: "unit Decoder" where
  "pending_decoder = example_decoder\<lparr>firstAUParsed := True, fragments := [[1, 2]], fragmentedSize := 2\<rparr>"

definition pending_adts_decoder :: "unit Decoder" where
  "pending_adts_decoder = pending_decoder\<lparr>adtsMode := True\<rparr>"

text \<open>A packet that holds the whole ADTS frame as one AU, and a decoder in ADTS mode
  without a fragment.\<close>

definition adts_whole :: Packet where
  "adts_whole = \<lparr>Marker = True, Timestamp = 9,
     Payload = [0x00, 0x10, 0x00, 0x48, 0xFF, 0xF1, 0x50, 0x80, 0x01, 0x3F, 0xFC, 0xAA, 0xBB]\<rparr>"

definition adts_decoder :: "unit Decoder" where
  "adts_decoder = example_decoder\<lparr>firstAUParsed := True, adtsMode := True\<rparr>"

text \<open>A packet that holds two ADTS frames, one after the other, as one AU.\<close>

definition adts_double :: Packet where
  "adts_double = \<lparr>Marker = True, Timestamp = 9,
     Payload = [0x00, 0x10, 0x00, 0x90, 0xFF, 0xF1, 0x50, 0x80, 0x01, 0x3F, 0xFC, 0xAA, 0xBB,
                0xFF, 0xF1, 0x50, 0x80, 0x01, 0x3F, 0xFC, 0xAA, 0xBB]\<rparr>"

text \<open>A decoder with an AU-index-delta field of \<open>2 ^ 63 - 2\<close> bits, and a decoder that
  holds the fragment \<open>[1, 2]\<close> with its size counter at the largest \<open>int\<close>.\<close>

definition cycling_decoder :: "unit Decoder" where
  "cycling_decoder =
     example_decoder\<lparr>SizeLength := 1, IndexLength := 1, IndexDeltaLength := 0x7FFFFFFFFFFFFFFE\<rparr>"

definition full_decoder :: "unit Decoder" where
  "full_decoder = pending_decoder\<lparr>fragmentedSize := 0x7FFFFFFFFFFFFFFF\<rparr>"

section \<open>Session registry and connection handler\<close>

text \<open>
  Modelled from the spec: the server, the connection handler and the sessions (the files
  of package \<open>gortsplib\<close> that define \<open>Server\<close>, \<open>ServerConn\<close> and \<open>ServerSession\<close>
  are not part of the sources at hand; only their tests are). The model follows sections
  3, 4.3, 4.4 and 7 of the spec: sessions and connections are kept in a registry and
  addressed by identifiers, a request is handled in one step under the lock of the
  registry, and what the server sends and the callbacks it invokes are a list of events.
\<close>

type_synonym conn_id = nat
type_synonym session_id = nat

datatype Method = OPTIONS | SETUP | PLAY | RECORD | TEARDOWN | OtherMethod

datatype TransportKind = TCPInterleaved | UDP

datatype SessionState = INIT | PRE_READY | READY | CLOSED

datatype StatusCode = StatusOK | StatusBadRequest | StatusSessionNotFound | StatusNotImplemented

text \<open>Modelled from the spec: the errors that section 4.3 names for the state machine.\<close>

datatype server_error =
    CSeqMissing
  | StreamClosed
  | InvalidState
  | DifferentPaths
  | AlreadySetup
  | TransportMismatch
  | TwoConnOneSession
  | OneConnTwoSessions

text \<open>
  Modelled from the spec: a request (section 6). Its method, the sequence-number header
  (if any), the Session header (if any), the path and the track it names, the transport
  it asks for, and whether the stream that the host returns for the path is open.
\<close>

record Request =
  req_method :: Method
  cseq :: "string option"
  session_header :: "session_id option"
  req_path :: string
  track_id :: nat
  transport :: TransportKind
  stream_open :: bool

text \<open>
  Modelled from the spec: a session (section 3). State, path and track ids of the tracks
  set up, transport mode (known from the first SETUP on), and the owning connection (TCP
  mode only).
\<close>

record Session =
  state :: SessionState
  path :: "string option"
  tracks :: "nat list"
  mode :: "TransportKind option"
  owner :: "conn_id option"

text \<open>Modelled from the spec: a connection (section 3), with its optional bound session.\<close>

record Conn =
  bound :: "session_id option"

text \<open>Modelled from the spec: the server (section 2), with its live connections, its
  sessions, and the next session id to give out; and what it sends or calls back.\<close>

record Server =
  conns :: "conn_id \<Rightarrow> Conn option"
  sessions :: "session_id \<Rightarrow> Session option"
  next_id :: session_id

datatype event =
    Response conn_id StatusCode
  | OnSessionOpen session_id conn_id
  | OnSessionClose session_id
  | OnConnClose conn_id "server_error option"

definition new_server :: Server where
  "new_server = \<lparr>conns = (\<lambda>c. None), sessions = (\<lambda>s. None), next_id = 0\<rparr>"

text \<open>Modelled from the spec: a connection is created on accept, without a session
  (section 3).\<close>

definition accept :: "Server \<Rightarrow> conn_id \<Rightarrow> Server" where
  "accept srv c = srv\<lparr>conns := (conns srv)(c \<mapsto> \<lparr>bound = None\<rparr>)\<rparr>"

text \<open>
  Modelled from the spec: a session is destroyed (section 3). It leaves the registry, and
  the connections bound to it are unbound.
\<close>

definition unbind :: "session_id \<Rightarrow> Conn \<Rightarrow> Conn" where
  "unbind sid k = (if bound k = Some sid then k\<lparr>bound := None\<rparr> else k)"

definition destroy_session :: "Server \<Rightarrow> session_id \<Rightarrow> Server" where
  "destroy_session srv sid =
     srv\<lparr>sessions := (sessions srv)(sid := None),
         conns := (\<lambda>c. map_option (unbind sid) (conns srv c))\<rparr>"

text \<open>
  Modelled from the spec: a connection is closed with the terminating error (section
  4.4). The session bound to it is torn down when this connection owns it, and the host's
  connection-close callback is invoked once.
\<close>

definition close_conn :: "Server \<Rightarrow> conn_id \<Rightarrow> server_error option \<Rightarrow> Server \<times> event list" where
  "close_conn srv c err =
     (case conns srv c of
        None \<Rightarrow> (srv, [])
      | Some k \<Rightarrow>
          (let srv1 = srv\<lparr>conns := (conns srv)(c := None)\<rparr> in
           case bound k of
             None \<Rightarrow> (srv1, [OnConnClose c err])
           | Some sid \<Rightarrow>
               (case sessions srv sid of
                  None \<Rightarrow> (srv1, [OnConnClose c err])
                | Some s \<Rightarrow>
                    if owner s = Some c
                    then (destroy_session srv1 sid, [OnSessionClose sid, OnConnClose c err])
                    else (srv1, [OnConnClose c err]))))"

text \<open>
  Modelled from the spec: the guards of SETUP on a session, in the order of section 4.3: the state is INIT or
  PRE_READY, the stream is open, the path is that of the tracks set up, the track is not
  set up, the transport agrees with that of the tracks set up, and for TCP the session is
  not bound to a different live connection.
\<close>

definition setup_guard :: "Server \<Rightarrow> conn_id \<Rightarrow> Session \<Rightarrow> Request \<Rightarrow> server_error option" where
  "setup_guard srv c s req =
     (if state s \<noteq> INIT \<and> state s \<noteq> PRE_READY then Some InvalidState
      else if \<not> stream_open req then Some StreamClosed
      else if path s \<noteq> None \<and> path s \<noteq> Some (req_path req) then Some DifferentPaths
      else if track_id req \<in> set (tracks s) then Some AlreadySetup
      else if mode s \<noteq> None \<and> mode s \<noteq> Some (transport req) then Some TransportMismatch
      else if transport req = TCPInterleaved \<and>
              (case owner s of None \<Rightarrow> False | Some c0 \<Rightarrow> c0 \<noteq> c \<and> conns srv c0 \<noteq> None)
      then Some TwoConnOneSession
      else None)"

text \<open>
  Modelled from the spec: a SETUP that passed the guards (section 4.3): the track is registered, the session moves to
  PRE_READY, and in TCP mode the session is bound to the issuing connection.
\<close>

definition setup_session :: "conn_id \<Rightarrow> Session \<Rightarrow> Request \<Rightarrow> Session" where
  "setup_session c s req =
     s\<lparr>state := PRE_READY, path := Some (req_path req), tracks := tracks s @ [track_id req],
       mode := Some (transport req),
       owner := (if transport req = TCPInterleaved then Some c else owner s)\<rparr>"

definition handle_setup :: "Server \<Rightarrow> conn_id \<Rightarrow> Conn \<Rightarrow> Request \<Rightarrow> Server \<times> event list" where
  "handle_setup srv c k req =
     (case session_header req of
        None \<Rightarrow>
          (if bound k \<noteq> None then (srv, [Response c StatusBadRequest])
           else
             (let sid = next_id srv;
                  s0 = \<lparr>state = INIT, path = None, tracks = [], mode = None, owner = None\<rparr>
              in case setup_guard srv c s0 req of
                   Some e \<Rightarrow> (srv, [Response c StatusBadRequest])
                 | None \<Rightarrow>
                     (srv\<lparr>sessions := (sessions srv)(sid \<mapsto> setup_session c s0 req),
                          conns := (conns srv)(c \<mapsto> k\<lparr>bound := Some sid\<rparr>),
                          next_id := Suc sid\<rparr>,
                      [OnSessionOpen sid c, Response c StatusOK])))
      | Some sid \<Rightarrow>
          (case sessions srv sid of
             None \<Rightarrow> (srv, [Response c StatusSessionNotFound])
           | Some s \<Rightarrow>
               if bound k \<noteq> None \<and> bound k \<noteq> Some sid then (srv, [Response c StatusBadRequest])
               else
                 (case setup_guard srv c s req of
                    Some e \<Rightarrow> (srv, [Response c StatusBadRequest])
                  | None \<Rightarrow>
                      (srv\<lparr>sessions := (sessions srv)(sid \<mapsto> setup_session c s req),
                           conns := (conns srv)(c \<mapsto> k\<lparr>bound := Some sid\<rparr>)\<rparr>,
                       [Response c StatusOK]))))"

text \<open>Modelled from the spec: PLAY and RECORD are allowed only from PRE_READY and lead to
  READY; TEARDOWN closes and destroys the session (section 4.3).\<close>

definition handle_play :: "Server \<Rightarrow> conn_id \<Rightarrow> Request \<Rightarrow> Server \<times> event list" where
  "handle_play srv c req =
     (case session_header req of
        None \<Rightarrow> (srv, [Response c StatusSessionNotFound])
      | Some sid \<Rightarrow>
          (case sessions srv sid of
             None \<Rightarrow> (srv, [Response c StatusSessionNotFound])
           | Some s \<Rightarrow>
               if state s \<noteq> PRE_READY then (srv, [Response c StatusBadRequest])
               else (srv\<lparr>sessions := (sessions srv)(sid \<mapsto> s\<lparr>state := READY\<rparr>)\<rparr>,
                     [Response c StatusOK])))"

definition handle_teardown :: "Server \<Rightarrow> conn_id \<Rightarrow> Request \<Rightarrow> Server \<times> event list" where
  "handle_teardown srv c req =
     (case session_header req of
        None \<Rightarrow> (srv, [Response c StatusSessionNotFound])
      | Some sid \<Rightarrow>
          (case sessions srv sid of
             None \<Rightarrow> (srv, [Response c StatusSessionNotFound])
           | Some s \<Rightarrow> (destroy_session srv sid, [OnSessionClose sid, Response c StatusOK])))"

text \<open>
  Modelled from the spec: a request on a connection (sections 4.3 and 7). A request on a
  connection that is not live is not read. A
  request without the sequence-number header is answered with bad-request, and the
  connection is then closed with the error. OPTIONS needs no session; a method outside
  the recognized set is not implemented.
\<close>

definition handle_request :: "Server \<Rightarrow> conn_id \<Rightarrow> Request \<Rightarrow> Server \<times> event list" where
  "handle_request srv c req =
     (case conns srv c of
        None \<Rightarrow> (srv, [])
      | Some k \<Rightarrow>
          if cseq req = None then
            (case close_conn srv c (Some CSeqMissing) of
               (srv', evs) \<Rightarrow> (srv', Response c StatusBadRequest # evs))
          else
            (case req_method req of
               OPTIONS \<Rightarrow> (srv, [Response c StatusOK])
             | SETUP \<Rightarrow> handle_setup srv c k req
             | PLAY \<Rightarrow> handle_play srv c req
             | RECORD \<Rightarrow> handle_play srv c req
             | TEARDOWN \<Rightarrow> handle_teardown srv c req
             | OtherMethod \<Rightarrow> (srv, [Response c StatusNotImplemented])))"

text \<open>Modelled from the spec: what happens to the server. A connection is accepted, a
  request arrives on a connection, a connection is lost (section 2).\<close>

datatype input = Accept conn_id | Req conn_id Request | Lost conn_id

fun step :: "Server \<Rightarrow> input \<Rightarrow> Server \<times> event list" where
  "step srv (Accept c) = (if conns srv c = None then (accept srv c, []) else (srv, []))"
| "step srv (Req c req) = handle_request srv c req"
| "step srv (Lost c) = close_conn srv c None"

fun run :: "Server \<Rightarrow> input list \<Rightarrow> Server \<times> event list" where
  "run srv [] = (srv, [])"
| "run srv (i # is) =
     (case step srv i of (srv1, evs1) \<Rightarrow>
        case run srv1 is of (srv2, evs2) \<Rightarrow> (srv2, evs1 @ evs2))"

text \<open>
  \<open>bound_to srv sid c\<close>: the live connection \<open>c\<close> is bound to the session \<open>sid\<close>.
\<close>

definition bound_to :: "Server \<Rightarrow> session_id \<Rightarrow> conn_id \<Rightarrow> bool" where
  "bound_to srv sid c \<longleftrightarrow> (case conns srv c of None \<Rightarrow> False | Some k \<Rightarrow> bound k = Some sid)"

text \<open>
  The invariant of the registry that the binding rule rests on: a live connection bound
  to a session in TCP mode is the owner of that session; a bound session is in the
  registry; every session in the registry has its mode; the ids from \<open>next_id\<close> on are
  not in use.
\<close>

definition registry_inv :: "Server \<Rightarrow> bool" where
  "registry_inv srv \<longleftrightarrow>
     (\<forall>c k sid. conns srv c = Some k \<and> bound k = Some sid \<longrightarrow>
        (\<exists>s. sessions srv sid = Some s \<and> (mode s = Some TCPInterleaved \<longrightarrow> owner s = Some c)))
     \<and> (\<forall>sid s. sessions srv sid = Some s \<longrightarrow> mode s \<noteq> None \<and> sid < next_id srv)"

text \<open>The requests of the test of two connections and one session.\<close>

definition setup_req :: "session_id option \<Rightarrow> Request" where
  "setup_req sh =
     \<lparr>req_method = SETUP, cseq = Some ''1'', session_header = sh, req_path = ''teststream'',
      track_id = 0, transport = TCPInterleaved, stream_open = True\<rparr>"

definition play_req :: "session_id \<Rightarrow> Request" where
  "play_req sid =
     \<lparr>req_method = PLAY, cseq = Some ''2'', session_header = Some sid, req_path = ''teststream'',
      track_id = 0, transport = TCPInterleaved, stream_open = True\<rparr>"

definition options_no_cseq :: Request where
  "options_no_cseq =
     \<lparr>req_method = OPTIONS, cseq = None, session_header = None, req_path = [],
      track_id = 0, transport = TCPInterleaved, stream_open = True\<rparr>"

text \<open>The first connection sets up and plays a session, then a second connection is
  accepted.\<close>

definition two_conn_inputs :: "input list" where
  "two_conn_inputs = [Accept 5, Req 5 (setup_req None), Req 5 (play_req 0), Accept 6]"

definition two_conn_server :: Server where
  "two_conn_server = fst (run new_server two_conn_inputs)"

definition played_session :: Session where
  "played_session =
     \<lparr>state = READY, path = Some ''teststream'', tracks = [0], mode = Some TCPInterleaved,
      owner = Some 5\<rparr>"

section \<open>Properties of the Transport header codec\<close>

subsection \<open>The order of the loop over the map\<close>

lemma unmarshal_mode_cases:
  "(\<exists>e. \<forall>h. unmarshal_mode v h = Inl e) \<or> (\<exists>m. \<forall>h. unmarshal_mode v h = Inr (h\<lparr>Mode := Some m\<rparr>))"
proof -
  define str where "str = TrimSuffix (TrimPrefix (ToLower v) CHR 0x22) CHR 0x22"
  consider "str = ''play''" | "str \<noteq> ''play''" "str = ''record'' \<or> str = ''receive''"
    | "str \<noteq> ''play''" "str \<noteq> ''record''" "str \<noteq> ''receive''"
    by blast
  then show ?thesis
  proof cases
    case 1
    then have "\<forall>h. unmarshal_mode v h = Inr (h\<lparr>Mode := Some TransportModePlay\<rparr>)"
      by (simp add: unmarshal_mode_def Let_def str_def)
    then show ?thesis by blast
  next
    case 2
    then have "\<forall>h. unmarshal_mode v h = Inr (h\<lparr>Mode := Some TransportModeRecord\<rparr>)"
      by (auto simp: unmarshal_mode_def Let_def str_def)
    then show ?thesis by blast
  next
    case 3
    then have "\<forall>h. unmarshal_mode v h = Inl (ErrTransportInvalidMode str)"
      by (simp add: unmarshal_mode_def Let_def str_def)
    then show ?thesis by blast
  qed
qed

lemma unmarshal_entry_cases:
  "(\<exists>e. \<forall>st. unmarshal_entry kv st = Inl e)
   \<or> (\<forall>h pf. unmarshal_entry kv (h, pf) = Inr (h, True)) \<and> fst kv = ''RTP/AVP/TCP''
   \<or> (\<exists>p. \<forall>h pf. unmarshal_entry kv (h, pf) = Inr (h\<lparr>InterleavedIDs := Some p\<rparr>, pf))
       \<and> fst kv = ''interleaved''
   \<or> (\<exists>s. \<forall>h pf. unmarshal_entry kv (h, pf) = Inr (h\<lparr>SSRC := Some s\<rparr>, pf)) \<and> fst kv = ''ssrc''
   \<or> (\<exists>m. \<forall>h pf. unmarshal_entry kv (h, pf) = Inr (h\<lparr>Mode := Some m\<rparr>, pf)) \<and> fst kv = ''mode''
   \<or> (\<forall>st. unmarshal_entry kv st = Inr st)"
proof -
  obtain k v where kv: "kv = (k, v)" by (cases kv)
  consider "k = ''RTP/AVP/TCP''" | "k = ''interleaved''" | "k = ''ssrc''" | "k = ''mode''"
    | "k \<noteq> ''RTP/AVP/TCP''" "k \<noteq> ''interleaved''" "k \<noteq> ''ssrc''" "k \<noteq> ''mode''"
    by blast
  then show ?thesis
  proof cases
    case 1
    then show ?thesis by (simp add: kv unmarshal_entry_def)
  next
    case 2
    show ?thesis
    proof (cases "parsePorts v")
      case (Inl e)
      with 2 have "\<forall>st. unmarshal_entry kv st = Inl e"
        by (simp add: kv unmarshal_entry_def)
      then show ?thesis by blast
    next
      case (Inr p)
      with 2 have "\<forall>h pf. unmarshal_entry kv (h, pf) = Inr (h\<lparr>InterleavedIDs := Some p\<rparr>, pf)"
        by (simp add: kv unmarshal_entry_def)
      moreover from 2 kv have "fst kv = ''interleaved''" by simp
      ultimately show ?thesis by blast
    qed
  next
    case 3
    then show ?thesis
      by (cases "ssrc_bytes v") (auto simp: kv unmarshal_entry_def unmarshal_ssrc_def)
  next
    case 4
    with unmarshal_mode_cases [of v] show ?thesis
      by (auto simp: kv unmarshal_entry_def)
  next
    case 5
    then show ?thesis by (simp add: kv unmarshal_entry_def)
  qed
qed

lemma unmarshal_loop_order:
  assumes d: "distinct (map fst kvs)" and p: "mset kvs' = mset kvs"
    and r: "unmarshal_loop kvs st = Inr r"
  shows "unmarshal_loop kvs' st = Inr r"
proof -
  define eff where "eff kv s = (case unmarshal_entry kv s of Inr s' \<Rightarrow> s' | Inl e \<Rightarrow> s)" for kv s
  define ok where "ok kv = (\<forall>s. \<exists>s'. unmarshal_entry kv s = Inr s')" for kv
  have ok_iff: "(\<exists>s'. unmarshal_entry kv s = Inr s') = ok kv" for kv s
    using unmarshal_entry_cases [of kv] unfolding ok_def
    by (cases s) (elim disjE exE conjE; simp; fail)+
  have step: "unmarshal_entry kv s = (if ok kv then Inr (eff kv s) else unmarshal_entry kv s)" for kv s
    using ok_iff [of kv s] by (auto simp: eff_def)
  have bad: "\<not> ok kv \<Longrightarrow> \<exists>e. unmarshal_entry kv s = Inl e" for kv s
    using ok_iff [of kv s] by (cases "unmarshal_entry kv s") auto
  have loop: "(unmarshal_loop xs s = Inr x) = ((\<forall>kv\<in>set xs. ok kv) \<and> x = fold eff xs s)" for xs s x
  proof (induction xs arbitrary: s)
    case Nil
    show ?case by auto
  next
    case (Cons kv xs)
    show ?case
    proof (cases "ok kv")
      case True
      then have "unmarshal_entry kv s = Inr (eff kv s)" using step by metis
      with True Cons [of "eff kv s"] show ?thesis by simp
    next
      case False
      from bad [OF this, of s] obtain e where "unmarshal_entry kv s = Inl e" by blast
      with False show ?thesis by simp
    qed
  qed
  have comm: "eff x \<circ> eff y = eff y \<circ> eff x" if "fst x \<noteq> fst y" for x y
  proof
    fix s :: "Transport \<times> bool"
    obtain h pf where s: "s = (h, pf)" by (cases s)
    from unmarshal_entry_cases [of x] unmarshal_entry_cases [of y] that
    show "(eff x \<circ> eff y) s = (eff y \<circ> eff x) s"
      unfolding eff_def s
      by (elim disjE exE conjE; simp; fail)
  qed
  have comm': "eff x \<circ> eff y = eff y \<circ> eff x" if "x \<in> set kvs" "y \<in> set kvs" for x y
  proof (cases "x = y")
    case True
    then show ?thesis by simp
  next
    case False
    with d that have "fst x \<noteq> fst y"
      by (metis eq_key_imp_eq_value prod.collapse)
    then show ?thesis by (rule comm)
  qed
  from p have "set kvs' = set kvs" by (metis set_mset_mset)
  moreover have "fold eff kvs = fold eff kvs'"
    using comm' p by (intro fold_multiset_equiv) simp_all
  ultimately show ?thesis using r by (simp add: loop)
qed

lemma keyValParse_distinct:
  assumes "keyValParse str sep = Inr kvs"
  shows "distinct (map fst kvs)"
proof -
  have "distinct (map fst (foldl (\<lambda>ret item. case parse_item item of (k, v) \<Rightarrow>
      if k = [] then ret else AList.update k v ret) acc items))"
    if "distinct (map fst acc)" for acc items
    using that
  proof (induction items arbitrary: acc)
    case Nil
    then show ?case by simp
  next
    case (Cons item items)
    obtain k v where kv: "parse_item item = (k, v)" by (cases "parse_item item")
    show ?case
    proof (cases "k = []")
      case True
      with kv Cons show ?thesis by simp
    next
      case False
      from Cons.prems have "distinct (map fst (AList.update k v acc))"
        by (rule distinct_update)
      from Cons.IH [OF this] kv False show ?thesis by simp
    qed
  qed
  from this [of "[]" "Split str sep"] assms show ?thesis by (simp add: keyValParse_def)
qed

text \<open>
  Go visits the map in an order of its choice. When \<open>Unmarshal\<close> succeeds in the order of
  the model, the loop succeeds with the same header in every order.
\<close>

lemma Unmarshal_any_order:
  assumes "Unmarshal h [v0] = Inr h'" and "keyValParse v0 CHR '';'' = Inr kvs"
    and "mset kvs' = mset kvs"
  shows "unmarshal_loop kvs' (h, False) = Inr (h', True)"
proof -
  have u: "Unmarshal h [v0] =
      (case unmarshal_loop kvs (h, False) of
         Inl e \<Rightarrow> Inl e
       | Inr (h', protocolFound) \<Rightarrow>
           if \<not> protocolFound then Inl ErrTransportProtocolNotFound else Inr h')"
    by (simp add: Unmarshal_def assms(2))
  have "unmarshal_loop kvs (h, False) = Inr (h', True)"
  proof (cases "unmarshal_loop kvs (h, False)")
    case (Inl e)
    with u assms(1) show ?thesis by simp
  next
    case (Inr st)
    obtain h1 pf where hp: "st = (h1, pf)" by (cases st)
    show ?thesis
    proof (cases pf)
      case True
      with u assms(1) Inr hp show ?thesis by simp
    next
      case False
      with u assms(1) Inr hp show ?thesis by simp
    qed
  qed
  with keyValParse_distinct [OF assms(2)] assms(3) show ?thesis
    by (rule unmarshal_loop_order)
qed


subsection \<open>Decimal numbers\<close>

lemma digit_char_is_digit: "d < 10 \<Longrightarrow> is_digit (digit_char d)"
  by (simp add: is_digit_def digit_char_def)

lemma digit_val_digit_char: "d < 10 \<Longrightarrow> digit_val (digit_char d) = int d"
  by (simp add: digit_val_def digit_char_def)

lemma of_char_digit_char: "d < 10 \<Longrightarrow> (of_char (digit_char d) :: nat) = 48 + d"
  by (simp add: digit_char_def)

lemma digit_char_neq:
  assumes "d < 10" and "(of_char c :: nat) < 48"
  shows "digit_char d \<noteq> c"
  using assms of_char_digit_char [of d] by auto

lemma parse_digits_append:
  "parse_digits acc (xs @ ys) =
     (case parse_digits acc xs of None \<Rightarrow> None | Some a \<Rightarrow> parse_digits a ys)"
  by (induction xs arbitrary: acc) auto

lemma parse_digits_format_nat: "parse_digits 0 (format_nat n) = Some (int n)"
proof (induction n rule: format_nat.induct)
  case (1 n)
  show ?case
  proof (cases "n < 10")
    case True
    then show ?thesis
      by (simp add: format_nat.simps [of n] digit_char_is_digit digit_val_digit_char)
  next
    case False
    with 1 have "parse_digits 0 (format_nat (n div 10)) = Some (int (n div 10))" by simp
    moreover have "n mod 10 < 10" by simp
    ultimately show ?thesis using False
      by (simp add: format_nat.simps [of n] parse_digits_append digit_char_is_digit
          digit_val_digit_char zdiv_int zmod_int)
  qed
qed

lemma format_nat_nonempty: "format_nat n \<noteq> []"
  by (subst format_nat.simps) simp

lemma format_nat_chars: "c \<in> set (format_nat n) \<Longrightarrow> \<exists>d<10. c = digit_char d"
proof (induction n rule: format_nat.induct)
  case (1 n)
  show ?case
  proof (cases "n < 10")
    case True
    with 1(2) show ?thesis by (auto simp: format_nat.simps [of n])
  next
    case False
    with 1(2) have "c \<in> set (format_nat (n div 10)) \<or> c = digit_char (n mod 10)"
      by (auto simp: format_nat.simps [of n])
    then show ?thesis
    proof
      assume "c \<in> set (format_nat (n div 10))"
      with 1(1) False show ?thesis by simp
    next
      assume "c = digit_char (n mod 10)"
      moreover have "n mod 10 < 10" by simp
      ultimately show ?thesis by blast
    qed
  qed
qed

lemma format_nat_no_low:
  assumes "(of_char c :: nat) < 48"
  shows "c \<notin> set (format_nat n)"
  using format_nat_chars digit_char_neq assms by blast

lemma format_nat_hd: "hd (format_nat n) \<noteq> CHR ''+'' \<and> hd (format_nat n) \<noteq> CHR ''-''"
proof -
  have "hd (format_nat n) \<in> set (format_nat n)" using format_nat_nonempty by simp
  moreover have "CHR ''+'' \<notin> set (format_nat n)" "CHR ''-'' \<notin> set (format_nat n)"
    by (rule format_nat_no_low, simp)+
  ultimately show ?thesis by metis
qed

lemma ParseInt_FormatInt:
  assumes "0 \<le> i" and "i < 2 ^ 63"
  shows "ParseInt (FormatInt i) = Some i"
proof -
  obtain c cs where f: "format_nat (nat i) = c # cs"
    using format_nat_nonempty by (cases "format_nat (nat i)") auto
  have c: "c \<noteq> CHR ''+''" "c \<noteq> CHR ''-''"
    using format_nat_hd [of "nat i"] f by auto
  have "parse_digits 0 (c # cs) = Some i"
    using parse_digits_format_nat [of "nat i"] f assms by simp
  with c assms show ?thesis
    by (simp add: ParseInt_def FormatInt_def f ParseUint_def)
qed

lemma Split_no_sep: "sep \<notin> set s \<Longrightarrow> Split s sep = [s]"
  by (induction s) auto

lemma Split_append_sep:
  "sep \<notin> set a \<Longrightarrow> Split (a @ sep # b) sep = a # Split b sep"
  by (induction a) auto

subsection \<open>Hexadecimal ssrc\<close>

lemma hex_digit_table:
  "\<forall>n\<in>set [0..<16]. fromHexChar (upper_char (hextable ! n)) = Some (of_nat n)
      \<and> (of_char (upper_char (hextable ! n)) :: nat) \<notin> {32, 59, 61}"
  by (simp add: upt_rec hextable_def fromHexChar_def upper_char_def)

lemma hex_digit:
  assumes "n < 16"
  shows "fromHexChar (upper_char (hextable ! n)) = Some (of_nat n)"
    and "upper_char (hextable ! n) \<noteq> CHR '';''"
    and "upper_char (hextable ! n) \<noteq> CHR ''=''"
    and "upper_char (hextable ! n) \<noteq> CHR '' ''"
proof -
  from assms have n: "n \<in> set [0..<16]" by simp
  with hex_digit_table show "fromHexChar (upper_char (hextable ! n)) = Some (of_nat n)"
    by blast
  from n hex_digit_table
  have "(of_char (upper_char (hextable ! n)) :: nat) \<notin> {32, 59, 61}" by blast
  then show "upper_char (hextable ! n) \<noteq> CHR '';''"
    and "upper_char (hextable ! n) \<noteq> CHR ''=''"
    and "upper_char (hextable ! n) \<noteq> CHR '' ''"
    by auto
qed

lemma unat_nibbles: "unat (drop_bit 4 (b :: byte)) < 16" "unat (b AND 0x0f) < 16"
proof -
  have "unat (drop_bit 4 b) = unat b div 16" by (simp add: unat_drop_bit_eq drop_bit_eq_div unat_div)
  moreover have "unat b < 256" using unsigned_less [of b, where ?'a = nat] by simp
  ultimately show "unat (drop_bit 4 b) < 16" by simp
  have "unat (b AND 0x0f) \<le> unat (0x0f :: byte)"
    by (rule word_and_le1 [THEN word_le_nat_alt [THEN iffD1]])
  then show "unat (b AND 0x0f) < 16" by simp
qed

lemma byte_nibbles: "push_bit 4 (drop_bit 4 b) OR (b AND 0x0f) = (b :: byte)"
proof -
  have m: "(0x0f :: byte) = mask 4" by (simp add: mask_eq_exp_minus_1)
  show ?thesis unfolding m
    by (rule bit_word_eqI) (auto simp: bit_simps not_le)
qed

lemma DecodeString_Encode: "DecodeString (ToUpper (EncodeToString bs)) = Some bs"
proof (induction bs)
  case Nil
  show ?case by (simp add: ToUpper_def EncodeToString_def)
next
  case (Cons b bs)
  have "ToUpper (EncodeToString (b # bs)) =
      upper_char (hextable ! unat (drop_bit 4 b)) # upper_char (hextable ! unat (b AND 0x0f))
        # ToUpper (EncodeToString bs)"
    by (simp add: ToUpper_def EncodeToString_def)
  with Cons show ?case
    by (simp add: hex_digit(1) unat_nibbles byte_nibbles)
qed

lemma length_Encode: "length (ToUpper (EncodeToString bs)) = 2 * length bs"
  by (induction bs) (simp_all add: ToUpper_def EncodeToString_def)

lemma Encode_chars:
  "c \<in> set (ToUpper (EncodeToString bs)) \<Longrightarrow> c \<noteq> CHR '';'' \<and> c \<noteq> CHR ''='' \<and> c \<noteq> CHR '' ''"
  using hex_digit(2,3,4) unat_nibbles
  by (induction bs) (auto simp: ToUpper_def EncodeToString_def)

lemma word32_bytes:
  "push_bit 24 (ucast (ucast (drop_bit 24 v) :: byte)) OR push_bit 16 (ucast (ucast (drop_bit 16 v) :: byte))
     OR push_bit 8 (ucast (ucast (drop_bit 8 v) :: byte)) OR ucast (ucast v :: byte) = (v :: 32 word)"
proof (rule bit_word_eqI)
  fix n :: nat
  assume "n < LENGTH(32)"
  then consider "n < 8" | "8 \<le> n" "n < 16" | "16 \<le> n" "n < 24" | "24 \<le> n" "n < 32"
    by force
  then show "bit (push_bit 24 (ucast (ucast (drop_bit 24 v) :: byte)) OR push_bit 16 (ucast (ucast (drop_bit 16 v) :: byte))
         OR push_bit 8 (ucast (ucast (drop_bit 8 v) :: byte)) OR ucast (ucast v :: byte) :: 32 word) n = bit v n"
    by cases (auto simp: bit_simps)
qed

lemma ssrc_value_PutUint32: "ssrc_value (PutUint32 v) = v"
  by (simp add: ssrc_value_def PutUint32_def word32_bytes)

lemma ssrc_bytes_Encode: "ssrc_bytes (ToUpper (EncodeToString bs)) = Some bs"
proof -
  let ?s = "ToUpper (EncodeToString bs)"
  have "TrimLeft ?s CHR '' '' = ?s"
  proof (cases ?s)
    case Nil
    then show ?thesis by (simp add: TrimLeft_def)
  next
    case (Cons c cs)
    then have "c \<in> set ?s" by simp
    then have "c \<noteq> CHR '' ''" using Encode_chars by blast
    with Cons show ?thesis by (simp add: TrimLeft_def)
  qed
  then show ?thesis
    by (simp add: ssrc_bytes_def length_Encode DecodeString_Encode)
qed

lemma unmarshal_ssrc_Marshal:
  "unmarshal_ssrc (ToUpper (EncodeToString (PutUint32 v))) h = h\<lparr>SSRC := Some v\<rparr>"
  by (simp add: unmarshal_ssrc_def ssrc_bytes_Encode ssrc_value_PutUint32) (simp add: PutUint32_def)

subsection \<open>Unmarshal after Marshal\<close>

lemma format_nat_digits:
  "c \<in> set (format_nat n) \<Longrightarrow> 48 \<le> (of_char c :: nat) \<and> (of_char c :: nat) \<le> 57"
  using format_nat_chars [of c n] of_char_digit_char by auto

lemma format_nat_no_seps:
  "CHR '';'' \<notin> set (format_nat n)" "CHR ''='' \<notin> set (format_nat n)" "CHR ''-'' \<notin> set (format_nat n)"
  using format_nat_digits [of _ n] by fastforce+

lemma Split_Join:
  "xs \<noteq> [] \<Longrightarrow> \<forall>x\<in>set xs. sep \<notin> set x \<Longrightarrow> Split (Join xs [sep]) sep = xs"
  by (induction xs "[sep]" rule: Join.induct) (simp_all add: Split_no_sep Split_append_sep)

lemma Marshal_items: "Marshal h = [Join (marshal_items h) '';'']"
  by (simp add: Marshal_def marshal_items_def split: option.splits prod.splits)

lemma FormatInt_nonneg: "0 \<le> i \<Longrightarrow> FormatInt i = format_nat (nat i)"
  by (simp add: FormatInt_def)

lemma marshal_items_no_sep:
  assumes "representable h"
  shows "\<forall>x\<in>set (marshal_items h). CHR '';'' \<notin> set x"
  using assms Encode_chars [of "CHR '';''"] format_nat_no_seps(1)
  by (auto simp: marshal_items_def representable_def FormatInt_nonneg split: option.splits)

lemma sint_bound: "sint (w :: go_int) < 2 ^ 63"
  using sint_lt [of w] by simp

lemma parsePorts_Format:
  assumes "0 \<le> sint a" "0 \<le> sint b"
  shows "parsePorts (FormatInt (sint a) @ ''-'' @ FormatInt (sint b)) = Inr (a, b)"
proof -
  have "Split (FormatInt (sint a) @ ''-'' @ FormatInt (sint b)) CHR ''-''
      = [FormatInt (sint a), FormatInt (sint b)]"
    using assms by (simp add: FormatInt_nonneg Split_append_sep Split_no_sep format_nat_no_seps)
  then show ?thesis
    using ParseInt_FormatInt [OF assms(1) sint_bound] ParseInt_FormatInt [OF assms(2) sint_bound]
    by (simp add: parsePorts_def)
qed

lemma parse_item_ssrc:
  "CHR ''='' \<notin> set v \<Longrightarrow> parse_item (''ssrc='' @ v) = (''ssrc'', v)"
  by (simp add: parse_item_def)

lemma parse_item_interleaved:
  "parse_item (''interleaved='' @ v) = (''interleaved'', v)"
  by (simp add: parse_item_def)

lemma Encode_no_eq: "CHR ''='' \<notin> set (ToUpper (EncodeToString bs))"
  using Encode_chars [of "CHR ''=''"] by blast

lemmas unmarshal_defs =
  unmarshal_entry_def unmarshal_ssrc_Marshal zero_Transport_def
  unmarshal_mode_def ToLower_def lower_char_def TrimPrefix_def TrimSuffix_def

text \<open>
  Claim C1. For every Transport value whose optional fields are representable in the
  header (interleaved ids that are not negative, any ssrc, either mode), unmarshalling
  into a fresh Transport the header value produced by \<open>Marshal\<close> succeeds and yields
  the same Transport, in whatever order the loop of \<open>Unmarshal\<close> visits the parsed map.
\<close>

theorem marshal_unmarshal_roundtrip:
  assumes "representable t"
  shows "Unmarshal zero_Transport (Marshal t) = Inr t
    \<and> (\<forall>v0 kvs kvs'. Marshal t = [v0] \<and> keyValParse v0 CHR '';'' = Inr kvs \<and> mset kvs' = mset kvs \<longrightarrow>
          unmarshal_loop kvs' (zero_Transport, False) = Inr (t, True))"
proof -
  have s: "Split (Join (marshal_items t) '';'') CHR '';'' = marshal_items t"
    using marshal_items_no_sep [OF assms] by (intro Split_Join) (simp_all add: marshal_items_def)
  obtain i s m where t: "t = \<lparr>InterleavedIDs = i, SSRC = s, Mode = m\<rparr>"
    by (cases t) auto
  have ports: "parsePorts (FormatInt (sint a) @ CHR ''-'' # FormatInt (sint b)) = Inr (a, b)"
    if "i = Some (a, b)" for a b
    using that assms t parsePorts_Format [of a b] by (simp add: representable_def)
  have mode: "(x \<noteq> TransportModePlay) = (x = TransportModeRecord)" for x
    by (cases x) auto
  have u: "Unmarshal zero_Transport [Join (marshal_items t) '';''] = Inr t"
    unfolding Unmarshal_def keyValParse_def
    apply (simp add: s)
    apply (cases i; cases s; cases m)
    apply (simp_all add: t marshal_items_def parse_item_ssrc parse_item_interleaved Encode_no_eq)
    apply (simp_all add: parse_item_def)
    apply (simp_all add: unmarshal_defs)
    apply (auto simp: unmarshal_defs ports mode)
    done
  then have 1: "Unmarshal zero_Transport (Marshal t) = Inr t"
    by (simp add: Marshal_items)
  have 2: "unmarshal_loop kvs' (zero_Transport, False) = Inr (t, True)"
    if "Marshal t = [v0] \<and> keyValParse v0 CHR '';'' = Inr kvs \<and> mset kvs' = mset kvs"
    for v0 kvs kvs'
  proof -
    from that 1 have "Unmarshal zero_Transport [v0] = Inr t" by simp
    from this that show ?thesis
      by (intro Unmarshal_any_order [of zero_Transport v0 t kvs]) simp_all
  qed
  from 1 2 show ?thesis by blast
qed

lemma digit_chars: "digit_char 0 = CHR ''0''" "digit_char (Suc 0) = CHR ''1''"
proof -
  have "of_char (char_of (48::nat)) = (of_char CHR ''0'' :: nat)" by simp
  then have "char_of (48::nat) = CHR ''0''" by (simp only: of_char_eq_iff)
  then show "digit_char 0 = CHR ''0''" by (simp add: digit_char_def)
  have "of_char (char_of (49::nat)) = (of_char CHR ''1'' :: nat)" by simp
  then have "char_of (49::nat) = CHR ''1''" by (simp only: of_char_eq_iff)
  then show "digit_char (Suc 0) = CHR ''1''" by (simp add: digit_char_def)
qed

lemma upper_char_a: "upper_char CHR ''a'' = CHR ''A''"
proof -
  have "of_char (char_of (65::nat)) = (of_char CHR ''A'' :: nat)" by simp
  then have "char_of (65::nat) = CHR ''A''" by (simp only: of_char_eq_iff)
  then show ?thesis by (simp add: upper_char_def)
qed

lemma upper_char_digit: "upper_char CHR ''0'' = CHR ''0''" "upper_char CHR ''1'' = CHR ''1''"
  by (simp_all add: upper_char_def)

theorem marshal_unmarshal_roundtrip_witness:
  "representable \<lparr>InterleavedIDs = Some (0, 1), SSRC = Some 0x1A, Mode = Some TransportModePlay\<rparr>
   \<and> Marshal \<lparr>InterleavedIDs = Some (0, 1), SSRC = Some 0x1A, Mode = Some TransportModePlay\<rparr>
       = [''RTP/AVP/TCP;interleaved=0-1;ssrc=0000001A;mode=play'']
   \<and> Unmarshal zero_Transport [''RTP/AVP/TCP;interleaved=0-1;ssrc=0000001A;mode=play'']
       = Inr \<lparr>InterleavedIDs = Some (0, 1), SSRC = Some 0x1A, Mode = Some TransportModePlay\<rparr>
   \<and> unmarshal_loop
         [(''mode'', ''play''), (''ssrc'', ''0000001A''), (''interleaved'', ''0-1''), (''RTP/AVP/TCP'', [])]
         (zero_Transport, False)
       = Inr (\<lparr>InterleavedIDs = Some (0, 1), SSRC = Some 0x1A, Mode = Some TransportModePlay\<rparr>, True)"
proof -
  let ?t = "\<lparr>InterleavedIDs = Some (0, 1), SSRC = Some 0x1A, Mode = Some TransportModePlay\<rparr>"
  let ?v = "''RTP/AVP/TCP;interleaved=0-1;ssrc=0000001A;mode=play''"
  let ?kvs = "[(''RTP/AVP/TCP'', []), (''interleaved'', ''0-1''), (''ssrc'', ''0000001A''), (''mode'', ''play'')]"
  have r: "representable ?t" by (simp add: representable_def)
  have f: "FormatInt 0 = ''0''" "FormatInt 1 = ''1''"
    by (simp_all add: FormatInt_def format_nat.simps digit_chars)
  have m: "Marshal ?t = [?v]"
    by (simp add: Marshal_def f ToUpper_def EncodeToString_def PutUint32_def hextable_def
        upper_char_a upper_char_digit)
  have k: "keyValParse ?v CHR '';'' = Inr ?kvs"
    by (simp add: keyValParse_def parse_item_def)
  have p: "mset (rev ?kvs) = mset ?kvs" by (rule mset_rev)
  from marshal_unmarshal_roundtrip [OF r] m k p
  have "Unmarshal zero_Transport [?v] = Inr ?t"
    and "unmarshal_loop (rev ?kvs) (zero_Transport, False) = Inr (?t, True)"
    by (simp, blast)
  with r m show ?thesis by simp
qed

text \<open>
  The restriction to ids that are not negative is needed: \<open>Marshal\<close> writes a negative
  id with its sign, and \<open>parsePorts\<close> then finds three parts instead of two.
\<close>

lemma parsePorts_negative_id: "parsePorts ''-1-1'' = Inl (ErrPortsInvalid ''-1-1'')"
  by (simp add: parsePorts_def)

subsection \<open>The ssrc case of Unmarshal\<close>

lemma ssrc_bytes_odd:
  assumes "odd (length v)" and "hd v \<noteq> CHR '' ''"
  shows "ssrc_bytes v = DecodeString (CHR ''0'' # v)"
    and "ssrc_bytes (CHR ''0'' # v) = DecodeString (CHR ''0'' # v)"
proof -
  from assms(1) obtain c cs where v: "v = c # cs" by (cases v) auto
  with assms(2) have "TrimLeft v CHR '' '' = v" by (simp add: TrimLeft_def)
  with assms(1) show "ssrc_bytes v = DecodeString (CHR ''0'' # v)"
    by (simp add: ssrc_bytes_def Let_def odd_iff_mod_2_eq_one)
  from assms(1) show "ssrc_bytes (CHR ''0'' # v) = DecodeString (CHR ''0'' # v)"
    by (simp add: ssrc_bytes_def TrimLeft_def Let_def)
qed

lemma ssrc_value_two_bytes: "ssrc_value [0, 0x1A] = 0x1A"
  by (simp add: ssrc_value_def Let_def nth_append nth_Cons')

text \<open>
  Claim C6. In the ssrc case of \<open>Unmarshal\<close>, a value of odd length is decoded with one
  \<open>0\<close> digit put before it, so that it gives the same result as the value written with
  that digit; \<open>01A\<close> and \<open>001A\<close> both give the ssrc \<open>0x1A\<close>. A value that is not
  hexadecimal, or that decodes to more than four bytes, leaves the header as it was (the
  SSRC field stays unset if it was) and is no error.
\<close>

theorem unmarshal_ssrc_lenient:
  "(odd (length v) \<and> hd v \<noteq> CHR '' '' \<longrightarrow>
      ssrc_bytes v = DecodeString (CHR ''0'' # v)
      \<and> unmarshal_entry (''ssrc'', v) (h, pf) = unmarshal_entry (''ssrc'', CHR ''0'' # v) (h, pf))
   \<and> unmarshal_entry (''ssrc'', ''01A'') (h, pf) = Inr (h\<lparr>SSRC := Some 0x1A\<rparr>, pf)
   \<and> unmarshal_entry (''ssrc'', ''001A'') (h, pf) = Inr (h\<lparr>SSRC := Some 0x1A\<rparr>, pf)
   \<and> (ssrc_bytes w = None \<or> (\<exists>tmp. ssrc_bytes w = Some tmp \<and> 4 < length tmp) \<longrightarrow>
        unmarshal_entry (''ssrc'', w) (h, pf) = Inr (h, pf)
        \<and> (SSRC h = None \<longrightarrow> SSRC (unmarshal_ssrc w h) = None))"
proof (intro conjI impI)
  assume a: "odd (length v) \<and> hd v \<noteq> CHR '' ''"
  then show "ssrc_bytes v = DecodeString (CHR ''0'' # v)"
    using ssrc_bytes_odd(1) by blast
  from a have "ssrc_bytes v = ssrc_bytes (CHR ''0'' # v)"
    using ssrc_bytes_odd [of v] by simp
  then show "unmarshal_entry (''ssrc'', v) (h, pf) = unmarshal_entry (''ssrc'', CHR ''0'' # v) (h, pf)"
    by (simp add: unmarshal_entry_def unmarshal_ssrc_def)
next
  show "unmarshal_entry (''ssrc'', ''01A'') (h, pf) = Inr (h\<lparr>SSRC := Some 0x1A\<rparr>, pf)"
    by (simp add: unmarshal_entry_def unmarshal_ssrc_def ssrc_bytes_def TrimLeft_def
        fromHexChar_def ssrc_value_two_bytes)
next
  show "unmarshal_entry (''ssrc'', ''001A'') (h, pf) = Inr (h\<lparr>SSRC := Some 0x1A\<rparr>, pf)"
    by (simp add: unmarshal_entry_def unmarshal_ssrc_def ssrc_bytes_def TrimLeft_def
        fromHexChar_def ssrc_value_two_bytes)
next
  assume b: "ssrc_bytes w = None \<or> (\<exists>tmp. ssrc_bytes w = Some tmp \<and> 4 < length tmp)"
  then have u: "unmarshal_ssrc w h = h"
    by (auto simp: unmarshal_ssrc_def)
  then show "unmarshal_entry (''ssrc'', w) (h, pf) = Inr (h, pf)"
    by (simp add: unmarshal_entry_def)
  show "SSRC (unmarshal_ssrc w h) = None" if "SSRC h = None"
    using u that by simp
qed

theorem unmarshal_ssrc_lenient_witness:
  "unmarshal_entry (''ssrc'', ''01A'') (zero_Transport, True)
     = unmarshal_entry (''ssrc'', ''001A'') (zero_Transport, True)
   \<and> unmarshal_entry (''ssrc'', ''01A'') (zero_Transport, True)
       = Inr (\<lparr>InterleavedIDs = None, SSRC = Some 0x1A, Mode = None\<rparr>, True)
   \<and> ssrc_bytes ''xyz1'' = None
   \<and> unmarshal_entry (''ssrc'', ''xyz1'') (zero_Transport, True) = Inr (zero_Transport, True)
   \<and> ssrc_bytes ''0011223344'' = Some [0x00, 0x11, 0x22, 0x33, 0x44]
   \<and> unmarshal_entry (''ssrc'', ''0011223344'') (zero_Transport, True) = Inr (zero_Transport, True)"
proof -
  have n: "ssrc_bytes ''xyz1'' = None"
    by (simp add: ssrc_bytes_def TrimLeft_def fromHexChar_def)
  have l: "ssrc_bytes ''0011223344'' = Some [0x00, 0x11, 0x22, 0x33, 0x44]"
    by (simp add: ssrc_bytes_def TrimLeft_def fromHexChar_def)
  show ?thesis
    using unmarshal_ssrc_lenient [of "''01A''" zero_Transport True "''xyz1''"]
      unmarshal_ssrc_lenient [of "''01A''" zero_Transport True "''0011223344''"] n l
    by (simp add: zero_Transport_def)
qed

text \<open>The same two values inside a whole header value.\<close>

lemma Unmarshal_ssrc_examples:
  "Unmarshal zero_Transport [''RTP/AVP/TCP;ssrc=01A'']
     = Inr \<lparr>InterleavedIDs = None, SSRC = Some 0x1A, Mode = None\<rparr>"
  "Unmarshal zero_Transport [''RTP/AVP/TCP;ssrc=001A'']
     = Inr \<lparr>InterleavedIDs = None, SSRC = Some 0x1A, Mode = None\<rparr>"
  "Unmarshal zero_Transport [''RTP/AVP/TCP;ssrc=xyz1'']
     = Inr \<lparr>InterleavedIDs = None, SSRC = None, Mode = None\<rparr>"
  by (simp_all add: Unmarshal_def keyValParse_def parse_item_def unmarshal_entry_def
      unmarshal_ssrc_def ssrc_bytes_def TrimLeft_def fromHexChar_def ssrc_value_two_bytes
      zero_Transport_def)
section \<open>Properties of the RTP/MPEG4-audio decoder\<close>

subsection \<open>Termination\<close>

lemma sint_add_no_wrap:
  fixes a b :: go_int
  assumes "- (2 ^ 63) \<le> sint a + sint b" and "sint a + sint b < 2 ^ 63"
  shows "sint (a + b) = sint a + sint b"
  using assms by (simp add: sint_word_add signed_take_bit_int_eq_self)

lemma sint_word_of_int_small:
  assumes "0 \<le> x" and "x < 2 ^ 63"
  shows "sint (word_of_int x :: go_int) = x"
  using assms by (simp add: sint_sbintrunc' signed_take_bit_int_eq_self)

lemma count_loop_returns:
  assumes a1: "1 \<le> sint sl + sint il" and a2: "sint sl + sint il \<le> 2 ^ 63 - 2 ^ 16"
    and b1: "1 \<le> sint sl + sint idl" and b2: "sint sl + sint idl \<le> 2 ^ 63 - 2 ^ 16"
    and h: "sint h < 2 ^ 16" and i: "0 \<le> sint i"
  shows "\<exists>c. count_loop sl il idl h i c0 = Some c"
  using i
proof (induction "nat (sint h - sint i)" arbitrary: i c0 rule: less_induct)
  case less
  show ?case
  proof (cases "sint i < sint h")
    case False
    then show ?thesis by (subst count_loop.simps) simp
  next
    case True
    have sa: "sint (sl + il) = sint sl + sint il"
      using a1 a2 by (intro sint_add_no_wrap) simp_all
    have sb: "sint (sl + idl) = sint sl + sint idl"
      using b1 b2 by (intro sint_add_no_wrap) simp_all
    let ?i' = "if i = 0 then i + sl + il else i + sl + idl"
    have e: "?i' = i + (if i = 0 then sl + il else sl + idl)"
      by (simp add: add.assoc)
    define s where "s = (if i = 0 then sl + il else sl + idl)"
    have s1: "1 \<le> sint s" and s2: "sint s \<le> 2 ^ 63 - 2 ^ 16"
      using a1 a2 b1 b2 sa sb by (simp_all add: s_def)
    have "sint (i + s) = sint i + sint s"
      using s1 s2 less.prems True h by (intro sint_add_no_wrap) simp_all
    with e have si: "sint ?i' = sint i + sint s" by (simp add: s_def)
    with s1 have gt: "sint i < sint ?i'" by linarith
    with True have m: "nat (sint h - sint ?i') < nat (sint h - sint i)" by linarith
    from gt less.prems have "0 \<le> sint ?i'" by linarith
    from less.hyps [OF m this] obtain c where "count_loop sl il idl h ?i' (c0 + 1) = Some c" by blast
    with True show ?thesis by (subst count_loop.simps) simp
  qed
qed

lemma count_loop_diverges:
  assumes "0 < sint h"
  shows "count_loop 0 0 0 h 0 c = None"
proof -
  define P where "P = (\<lambda>(sl::go_int) (il::go_int) (idl::go_int) (h'::go_int) (i::go_int)
      (c'::go_int) (y::go_int). \<not> (sl = 0 \<and> il = 0 \<and> idl = 0 \<and> i = 0 \<and> 0 < sint h'))"
  have step: "P sl il idl h' i c' y"
    if ih: "\<And>a b c d e g y. f a b c d e g = Some y \<Longrightarrow> P a b c d e g y"
      and eq: "(if sint i < sint h' then f sl il idl h'
                  (if i = 0 then i + sl + il else i + sl + idl) (c' + 1)
                else Some c') = Some y"
    for f sl il idl h' i c' y
    unfolding P_def
  proof
    assume z: "sl = 0 \<and> il = 0 \<and> idl = 0 \<and> i = 0 \<and> 0 < sint h'"
    with eq have "f 0 0 0 h' 0 (c' + 1) = Some y" by simp
    from ih [OF this] z show False by (simp add: P_def)
  qed
  have "P 0 0 0 h 0 c y" if "count_loop 0 0 0 h 0 c = Some y" for y
    by (rule count_loop.raw_induct [where P = P, OF step that])
  with assms show ?thesis
    by (cases "count_loop 0 0 0 h 0 c") (auto simp: P_def)
qed

text \<open>The index goes from 0 to 2, wraps around to \<open>- 2 ^ 63 + 1\<close> and comes back to 0.\<close>

lemma count_loop_cycles:
  assumes "i \<in> {0, 2, 0x8000000000000001}"
  shows "count_loop 1 1 0x7FFFFFFFFFFFFFFE 16 i c = None"
proof -
  define P where "P = (\<lambda>(sl::go_int) (il::go_int) (idl::go_int) (h'::go_int) (i::go_int)
      (c'::go_int) (y::go_int). \<not> (sl = 1 \<and> il = 1 \<and> idl = 0x7FFFFFFFFFFFFFFE \<and> h' = 16 \<and>
         i \<in> {0, 2, 0x8000000000000001}))"
  have step: "P sl il idl h' i c' y"
    if ih: "\<And>a b c d e g y. f a b c d e g = Some y \<Longrightarrow> P a b c d e g y"
      and eq: "(if sint i < sint h' then f sl il idl h'
                  (if i = 0 then i + sl + il else i + sl + idl) (c' + 1)
                else Some c') = Some y"
    for f sl il idl h' i c' y
    unfolding P_def
  proof
    assume z: "sl = 1 \<and> il = 1 \<and> idl = 0x7FFFFFFFFFFFFFFE \<and> h' = 16 \<and> i \<in> {0, 2, 0x8000000000000001}"
    then have lt: "sint i < sint h'" by auto
    from z have nx: "(if i = 0 then i + sl + il else i + sl + idl) \<in> {0, 2, 0x8000000000000001}"
      by auto
    from eq lt
    have "f sl il idl h' (if i = 0 then i + sl + il else i + sl + idl) (c' + 1) = Some y"
      by (simp only: if_True)
    from ih [OF this] z nx show False by (simp only: P_def simp_thms)
  qed
  have "P 1 1 0x7FFFFFFFFFFFFFFE 16 i c y" if "count_loop 1 1 0x7FFFFFFFFFFFFFFE 16 i c = Some y" for y
    by (rule count_loop.raw_induct [where P = P, OF step that])
  with assms show ?thesis
    by (cases "count_loop 1 1 0x7FFFFFFFFFFFFFFE 16 i c") (auto simp: P_def)
qed

lemma headers_len_nonneg: "0 \<le> headers_len pkt"
  by (simp add: headers_len_def)

lemma headers_len_less: "headers_len pkt < 2 ^ 16"
proof -
  have "uint (Payload pkt ! 0) < 2 ^ 8" and "uint (Payload pkt ! 1) < 2 ^ 8"
    using unsigned_less [of "Payload pkt ! 0", where 'a = int]
      unsigned_less [of "Payload pkt ! 1", where 'a = int] by simp_all
  then show ?thesis by (simp add: headers_len_def)
qed

lemma sint_headers_len: "sint (word_of_int (headers_len pkt) :: go_int) = headers_len pkt"
  using headers_len_nonneg [of pkt] headers_len_less [of pkt]
  by (intro sint_word_of_int_small) simp_all

lemma Decode_returns:
  assumes "1 \<le> sint (SizeLength d) + sint (IndexLength d)"
    and "sint (SizeLength d) + sint (IndexLength d) \<le> 2 ^ 63 - 2 ^ 16"
    and "1 \<le> sint (SizeLength d) + sint (IndexDeltaLength d)"
    and "sint (SizeLength d) + sint (IndexDeltaLength d) \<le> 2 ^ 63 - 2 ^ 16"
  shows "\<exists>r. Decode E d pkt = Some r"
proof -
  have "sint (word_of_int (headers_len pkt) :: go_int) < 2 ^ 16"
    using headers_len_less [of pkt] by (simp only: sint_headers_len)
  from count_loop_returns [OF assms this, of 0 0]
  obtain c where "count_loop (SizeLength d) (IndexLength d) (IndexDeltaLength d)
      (word_of_int (headers_len pkt)) 0 0 = Some c"
    by auto
  then obtain x where "readAUHeaders E d (drop 2 (Payload pkt)) (word_of_int (headers_len pkt)) = Some x"
    by (cases "sint c < 0") (simp_all add: readAUHeaders_def)
  then show ?thesis
    by (cases x) (simp_all add: Decode_def Let_def)
qed

text \<open>
  Claim C9, as amended. \<open>Decode\<close> returns on every packet when \<open>SizeLength + IndexLength\<close>
  and \<open>SizeLength + IndexDeltaLength\<close> are at least 1 and at most \<open>2 ^ 63 - 2 ^ 16\<close>, so
  that the index of the counting loop, which is below the AU-headers-length of 16 bits
  before every round, cannot wrap around. When the three lengths are zero and the
  packet has an AU-headers-length that is not zero, the counting loop of
  \<open>readAUHeaders\<close> stays at index 0 and \<open>Decode\<close> does not return. (Without the upper
  bound the index can wrap around and come back to 0: see the counterexample.)
\<close>

theorem Decode_termination:
  "(1 \<le> sint (SizeLength d) + sint (IndexLength d) \<and>
    sint (SizeLength d) + sint (IndexLength d) \<le> 2 ^ 63 - 2 ^ 16 \<and>
    1 \<le> sint (SizeLength d) + sint (IndexDeltaLength d) \<and>
    sint (SizeLength d) + sint (IndexDeltaLength d) \<le> 2 ^ 63 - 2 ^ 16 \<longrightarrow>
      (\<exists>r. Decode E d pkt = Some r))
   \<and> (SizeLength d = 0 \<and> IndexLength d = 0 \<and> IndexDeltaLength d = 0 \<and>
      2 \<le> length (Payload pkt) \<and> headers_len pkt \<noteq> 0 \<longrightarrow>
        count_loop (SizeLength d) (IndexLength d) (IndexDeltaLength d)
          (word_of_int (headers_len pkt)) 0 0 = None
        \<and> readAUHeaders E d (drop 2 (Payload pkt)) (word_of_int (headers_len pkt)) = None
        \<and> Decode E d pkt = None)"
proof (intro conjI impI)
  assume "1 \<le> sint (SizeLength d) + sint (IndexLength d) \<and>
    sint (SizeLength d) + sint (IndexLength d) \<le> 2 ^ 63 - 2 ^ 16 \<and>
    1 \<le> sint (SizeLength d) + sint (IndexDeltaLength d) \<and>
    sint (SizeLength d) + sint (IndexDeltaLength d) \<le> 2 ^ 63 - 2 ^ 16"
  then show "\<exists>r. Decode E d pkt = Some r" using Decode_returns by blast
next
  assume a: "SizeLength d = 0 \<and> IndexLength d = 0 \<and> IndexDeltaLength d = 0 \<and>
      2 \<le> length (Payload pkt) \<and> headers_len pkt \<noteq> 0"
  then have "0 < headers_len pkt" using headers_len_nonneg [of pkt] by simp
  then have "0 < sint (word_of_int (headers_len pkt) :: go_int)"
    by (simp only: sint_headers_len)
  with a show c: "count_loop (SizeLength d) (IndexLength d) (IndexDeltaLength d)
      (word_of_int (headers_len pkt)) 0 0 = None"
    by (simp add: count_loop_diverges)
  then show r: "readAUHeaders E d (drop 2 (Payload pkt)) (word_of_int (headers_len pkt)) = None"
    by (simp add: readAUHeaders_def)
  with a show "Decode E d pkt = None"
    by (simp add: Decode_def Let_def)
qed

theorem Decode_termination_witness:
  "(\<exists>r. Decode example_deps example_decoder
           \<lparr>Marker = True, Timestamp = 7, Payload = [0x00, 0x10, 0x00, 0x18, 1, 2, 3]\<rparr> = Some r)
   \<and> Decode example_deps (example_decoder\<lparr>SizeLength := 0, IndexLength := 0, IndexDeltaLength := 0\<rparr>)
           \<lparr>Marker = True, Timestamp = 7, Payload = [0x00, 0x10, 0x00, 0x18, 1, 2, 3]\<rparr> = None"
  using Decode_termination [of example_decoder example_deps
      "\<lparr>Marker = True, Timestamp = 7, Payload = [0x00, 0x10, 0x00, 0x18, 1, 2, 3]\<rparr>"]
    Decode_termination [of "example_decoder\<lparr>SizeLength := 0, IndexLength := 0, IndexDeltaLength := 0\<rparr>"
      example_deps "\<lparr>Marker = True, Timestamp = 7, Payload = [0x00, 0x10, 0x00, 0x18, 1, 2, 3]\<rparr>"]
  by (simp add: example_decoder_def headers_len_def)

theorem Decode_termination_counterexample:
  "1 \<le> sint (SizeLength cycling_decoder) + sint (IndexLength cycling_decoder)
   \<and> 1 \<le> sint (SizeLength cycling_decoder) + sint (IndexDeltaLength cycling_decoder)
   \<and> 1 \<le> sint (SizeLength cycling_decoder + IndexLength cycling_decoder)
   \<and> 1 \<le> sint (SizeLength cycling_decoder + IndexDeltaLength cycling_decoder)
   \<and> count_loop (SizeLength cycling_decoder) (IndexLength cycling_decoder)
         (IndexDeltaLength cycling_decoder) (word_of_int (headers_len frag2)) 0 0 = None
   \<and> Decode example_deps cycling_decoder frag2 = None"
proof -
  have h: "(word_of_int (headers_len frag2) :: go_int) = 16"
    by (simp add: headers_len_def frag2_def)
  have c: "count_loop 1 1 0x7FFFFFFFFFFFFFFE 16 0 0 = None"
    by (rule count_loop_cycles) simp
  have l: "2 \<le> length (Payload frag2)" "headers_len frag2 \<noteq> 0"
    by (simp_all add: headers_len_def frag2_def)
  have w: "SizeLength cycling_decoder = 1" "IndexLength cycling_decoder = 1"
    "IndexDeltaLength cycling_decoder = 0x7FFFFFFFFFFFFFFE"
    by (simp_all add: cycling_decoder_def example_decoder_def)
  have r: "readAUHeaders example_deps cycling_decoder (drop 2 (Payload frag2))
      (word_of_int (headers_len frag2)) = None"
    unfolding readAUHeaders_def w h c by simp
  have "Decode example_deps cycling_decoder frag2 = None"
    using l r by (simp add: Decode_def Let_def)
  with c show ?thesis unfolding w h by simp
qed


subsection \<open>The two paths of Decode\<close>

lemma Decode_carries:
  assumes "carries E d pkt dataLens"
  shows "Decode E d pkt =
     Some (if fragments d \<noteq> [] then decodeFragmented E d dataLens (au_data pkt) pkt
           else decodeUnfragmented E d dataLens (au_data pkt) pkt)"
proof -
  from assms have l: "2 \<le> length (Payload pkt)" by (simp add: carries_def)
  then have "int (length (Payload pkt) - 2) = int (length (Payload pkt)) - 2" by simp
  with assms show ?thesis
    by (simp add: carries_def Decode_def Let_def au_data_def)
qed

lemma read_header_widths:
  assumes "SizeLength d' = SizeLength d" "IndexLength d' = IndexLength d"
    "IndexDeltaLength d' = IndexDeltaLength d"
  shows "read_header E d' buf h pos fr = read_header E d buf h pos fr"
  unfolding read_header_def assms by (rule refl)

lemma read_loop_widths:
  assumes "SizeLength d' = SizeLength d" "IndexLength d' = IndexLength d"
    "IndexDeltaLength d' = IndexDeltaLength d"
  shows "read_loop E d' buf h pos fr i ns = read_loop E d buf h pos fr i ns"
  using assms
proof (induction E d buf h pos fr i ns rule: read_loop.induct)
  case (1 E d buf headersLen pos firstRead i dataLens)
  note w = "1.prems"
  note rh = read_header_widths [OF w, of E buf headersLen pos firstRead]
  show ?case
  proof (cases "0 < sint headersLen")
    case False
    then show ?thesis by (simp add: read_loop.simps [of _ _ _ headersLen])
  next
    case hl: True
    show ?thesis
    proof (cases "read_header E d buf headersLen pos firstRead")
      case (Inl e)
      show ?thesis
        by (simp add: read_loop.simps [of _ _ _ headersLen] hl rh Inl)
    next
      case (Inr r)
      obtain dataLen pos' headersLen' where r: "r = (dataLen, pos', headersLen')"
        by (cases r) auto
      show ?thesis
      proof (cases "i < length dataLens")
        case True
        from "1.IH" [OF hl Inr [unfolded r] refl refl True w]
        have ih: "read_loop E d' buf headersLen' pos' True (Suc i) (dataLens[i := dataLen])
            = read_loop E d buf headersLen' pos' True (Suc i) (dataLens[i := dataLen])" .
        show ?thesis
          by (simp add: read_loop.simps [of _ _ _ headersLen] hl rh Inr r True ih)
      next
        case False
        show ?thesis
          by (simp add: read_loop.simps [of _ _ _ headersLen] hl rh Inr r False)
      qed
    qed
  qed
qed

lemma readAUHeaders_widths:
  assumes "SizeLength d' = SizeLength d" "IndexLength d' = IndexLength d"
    "IndexDeltaLength d' = IndexDeltaLength d"
  shows "readAUHeaders E d' buf h = readAUHeaders E d buf h"
  unfolding readAUHeaders_def read_loop_widths [OF assms] assms by (rule refl)

lemma carries_widths:
  assumes "SizeLength d' = SizeLength d" "IndexLength d' = IndexLength d"
    "IndexDeltaLength d' = IndexDeltaLength d"
  shows "carries E d' pkt ns = carries E d pkt ns"
  by (simp add: carries_def readAUHeaders_widths [OF assms])

lemma read_loop_errors:
  "read_loop E d buf h pos fr i ns = Inl e \<Longrightarrow>
     e \<in> {ErrReadBits, ErrAUindexNotZero, ErrAUindexDeltaNotZero, Panic}"
proof (induction E d buf h pos fr i ns rule: read_loop.induct)
  case (1 E d buf headersLen pos firstRead i dataLens)
  from 1(2) have hl: "0 < sint headersLen"
    by (cases "0 < sint headersLen") (simp_all add: read_loop.simps [of _ _ _ headersLen])
  show ?case
  proof (cases "read_header E d buf headersLen pos firstRead")
    case (Inl e')
    with hl 1(2) have "e' = e" by (simp add: read_loop.simps [of _ _ _ headersLen])
    with Inl show ?thesis
      by (auto simp: read_header_def Let_def split: option.splits if_splits prod.splits)
  next
    case (Inr r)
    obtain dataLen pos' headersLen' where r: "r = (dataLen, pos', headersLen')"
      by (cases r) auto
    show ?thesis
    proof (cases "i < length dataLens")
      case True
      with hl Inr r 1(2)
      have "read_loop E d buf headersLen' pos' True (Suc i) (dataLens[i := dataLen]) = Inl e"
        by (simp add: read_loop.simps [of _ _ _ headersLen])
      from 1(1) [OF hl Inr [unfolded r] refl refl True this] show ?thesis .
    next
      case False
      with hl Inr r 1(2) show ?thesis
        by (simp add: read_loop.simps [of _ _ _ headersLen])
    qed
  qed
qed

lemma readAUHeaders_errors:
  "readAUHeaders E d buf h = Some (Inl e) \<Longrightarrow>
     e \<in> {ErrReadBits, ErrAUindexNotZero, ErrAUindexDeltaNotZero, Panic}"
  using read_loop_errors by (fastforce simp: readAUHeaders_def split: option.splits if_splits)

lemma sint_nonneg_unat: "0 \<le> sint (n :: u64) \<Longrightarrow> int (unat n) = sint n"
proof -
  assume nn: "0 \<le> sint n"
  have "sint n < 2 ^ 64" using sint_lt [of n] by simp
  with nn have "take_bit 64 (sint n) = sint n" by (simp add: take_bit_int_eq_self)
  then have "uint n = sint n" using uint_sint [of n] by simp
  then show ?thesis by simp
qed

subsection \<open>Fragments\<close>

lemma finalize_plain:
  assumes "\<not> adtsMode d" and "firstAUParsed d \<or> \<not> adts_wrapped E au"
  shows "finalize E d [au] = (d\<lparr>firstAUParsed := True\<rparr>, Inr [au])"
proof (cases "firstAUParsed d")
  case True
  with assms(1) show ?thesis by (simp add: finalize_def)
next
  case False
  with assms(2) have "\<not> adts_wrapped E au" by simp
  with False show ?thesis
    by (auto simp: finalize_def adts_wrapped_def Let_def split: option.splits list.splits)
qed

lemma join_whole:
  assumes "sint sz = int (length (concat frags))"
  shows "join_fragments sz frags = concat frags"
  using assms by (simp add: join_fragments_def)

text \<open>The two paths of a packet with the marker that holds one AU.\<close>

lemma decodeUnfragmented_whole:
  assumes "Marker pkt" and "0 \<le> sint n" and "sint n \<le> int (length pl)"
  shows "decodeUnfragmented E d [n] pl pkt = finalize_and_time E d [take (unat n) pl] pkt"
proof -
  have "int (unat n) = sint n" using assms(2) by (rule sint_nonneg_unat)
  with assms(3) have "unat n \<le> length pl" by linarith
  with assms show ?thesis by (simp add: decodeUnfragmented_def)
qed

lemma decodeFragmented_completes:
  assumes "Marker pkt" and "0 \<le> sint n" and "sint n \<le> int (length pl)"
    and "sint (fragmentedSize d) = int (length (concat (fragments d)))"
    and "sint (fragmentedSize d) + sint n \<le> sint (MaxAccessUnitSize E)"
  shows "decodeFragmented E d [n] pl pkt =
     finalize_and_time E (d\<lparr>fragmentedSize := fragmentedSize d + n, fragments := []\<rparr>)
       [concat (fragments d) @ take (unat n) pl] pkt"
proof -
  have u: "int (unat n) = sint n" using assms(2) by (rule sint_nonneg_unat)
  with assms(3) have l: "unat n \<le> length pl" by linarith
  have "sint (MaxAccessUnitSize E) < 2 ^ 63" using sint_lt [of "MaxAccessUnitSize E"] by simp
  with assms(2,4,5) have s: "sint (fragmentedSize d + n) = sint (fragmentedSize d) + sint n"
    by (intro sint_add_no_wrap) simp_all
  have "sint (fragmentedSize d + n) = int (length (concat (fragments d @ [take (unat n) pl])))"
    using s assms(4) l u by simp
  then have j: "join_fragments (fragmentedSize d + n) (fragments d @ [take (unat n) pl])
      = concat (fragments d @ [take (unat n) pl])"
    by (rule join_whole)
  have nn: "\<not> sint (fragmentedSize d + n) < 0" using s assms(2,4) by simp
  have le: "\<not> sint (MaxAccessUnitSize E) < sint (fragmentedSize d + n)" using s assms(5) by simp
  have ns: "\<not> int (length pl) < sint n" using assms(3) by simp
  have nl: "\<not> length pl < unat n" using l by simp
  show ?thesis
    unfolding decodeFragmented_def Let_def
    using assms(1) nn le ns nl j by simp
qed

text \<open>
  Claim C4, as amended. For every decoder that holds a fragment, a packet that carries one
  AU-header and holds at least the bytes it declares, and whose size brings the size of
  the fragments above the maximum without leaving the range of \<open>int\<close>, makes \<open>Decode\<close>
  return \<open>AUsizeToBigError\<close> and empty the fragment buffer, so that the following
  \<open>Decode\<close> takes the unfragmented path. More generally this is so whenever the size
  counter that the code computes, a sum of 64-bit numbers that wraps around, is above the
  maximum. A packet that carries more than one AU-header makes \<open>Decode\<close> return
  \<open>ErrFragMultipleAU\<close> and empty the buffer. (A packet that holds fewer bytes than it
  declares is rejected before the size is added, and a sum that wraps around is not
  above the maximum: see the counterexample.)
\<close>

theorem fragmented_oversize:
  "(fragments d \<noteq> [] \<and> carries E d pkt [n] \<and> sint n \<le> int (length (au_data pkt)) \<and>
      sint (MaxAccessUnitSize E) < sint (fragmentedSize d) + sint n \<and>
      sint (fragmentedSize d) + sint n < 2 ^ 63 \<longrightarrow>
        Decode E d pkt =
          Some (d\<lparr>fragmentedSize := fragmentedSize d + n, fragments := []\<rparr>,
                Inl (AUsizeToBigError (fragmentedSize d + n)))
        \<and> sint (fragmentedSize d + n) = sint (fragmentedSize d) + sint n
        \<and> (\<forall>q ns. carries E d q ns \<longrightarrow>
              Decode E (d\<lparr>fragmentedSize := fragmentedSize d + n, fragments := []\<rparr>) q =
                Some (decodeUnfragmented E
                       (d\<lparr>fragmentedSize := fragmentedSize d + n, fragments := []\<rparr>)
                       ns (au_data q) q)))
   \<and> (fragments d \<noteq> [] \<and> carries E d pkt [n] \<and> sint n \<le> int (length (au_data pkt)) \<and>
      sint (MaxAccessUnitSize E) < sint (fragmentedSize d + n) \<longrightarrow>
        Decode E d pkt =
          Some (d\<lparr>fragmentedSize := fragmentedSize d + n, fragments := []\<rparr>,
                Inl (AUsizeToBigError (fragmentedSize d + n))))
   \<and> (fragments d \<noteq> [] \<and> carries E d pkt ns \<and> 1 < length ns \<longrightarrow>
        Decode E d pkt = Some (d\<lparr>fragments := []\<rparr>, Inl ErrFragMultipleAU))"
proof -
  let ?d' = "d\<lparr>fragmentedSize := fragmentedSize d + n, fragments := []\<rparr>"
  have over: "Decode E d pkt = Some (?d', Inl (AUsizeToBigError (fragmentedSize d + n)))"
    if "fragments d \<noteq> [] \<and> carries E d pkt [n] \<and> sint n \<le> int (length (au_data pkt)) \<and>
      sint (MaxAccessUnitSize E) < sint (fragmentedSize d + n)"
    using that Decode_carries [of E d pkt "[n]"]
    by (simp add: decodeFragmented_def Let_def)
  have nowrap: "sint (fragmentedSize d + n) = sint (fragmentedSize d) + sint n"
    if b: "sint (MaxAccessUnitSize E) < sint (fragmentedSize d) + sint n \<and>
      sint (fragmentedSize d) + sint n < 2 ^ 63"
  proof -
    have "- (2 ^ 63) \<le> sint (MaxAccessUnitSize E)"
      using sint_ge [of "MaxAccessUnitSize E"] by simp
    with b show ?thesis by (intro sint_add_no_wrap) simp_all
  qed
  have following: "Decode E ?d' q = Some (decodeUnfragmented E ?d' ns (au_data q) q)"
    if c: "carries E d q ns" for q ns
  proof -
    have "carries E ?d' q ns = carries E d q ns"
      by (rule carries_widths) simp_all
    with c have "carries E ?d' q ns" by simp
    with Decode_carries [of E ?d' q ns] show ?thesis by simp
  qed
  have multiple: "Decode E d pkt = Some (d\<lparr>fragments := []\<rparr>, Inl ErrFragMultipleAU)"
    if "fragments d \<noteq> [] \<and> carries E d pkt ns \<and> 1 < length ns"
    using that Decode_carries [of E d pkt ns] by (simp add: decodeFragmented_def)
  have first: "Decode E d pkt = Some (?d', Inl (AUsizeToBigError (fragmentedSize d + n)))
      \<and> sint (fragmentedSize d + n) = sint (fragmentedSize d) + sint n"
    if a: "fragments d \<noteq> [] \<and> carries E d pkt [n] \<and> sint n \<le> int (length (au_data pkt)) \<and>
      sint (MaxAccessUnitSize E) < sint (fragmentedSize d) + sint n \<and>
      sint (fragmentedSize d) + sint n < 2 ^ 63"
  proof -
    from a have s: "sint (fragmentedSize d + n) = sint (fragmentedSize d) + sint n"
      by (intro nowrap) simp
    with a have "sint (MaxAccessUnitSize E) < sint (fragmentedSize d + n)" by simp
    with a s over show ?thesis by simp
  qed
  from first over following multiple show ?thesis by blast
qed

text \<open>
  Claim C3, as amended. For an access unit split across two packets that each carry one
  AU-header and hold the bytes it declares, the first without and the second with the
  marker, given to a decoder without a fragment: when the two sizes together do not
  exceed the maximum and \<open>finalize\<close> does not unwrap the result (the decoder is not in
  ADTS mode, and it has parsed an AU before or the result is not one ADTS frame),
  \<open>Decode\<close> returns \<open>ErrMorePacketsNeeded\<close> on the first packet and, on the second,
  exactly one AU, the data region of the first packet followed by that of the second.
\<close>

theorem fragmented_reassembly:
  assumes "fragments d = []" and "\<not> Marker p1" and "Marker p2"
    and "one_AU E d p1 n1" and "one_AU E d p2 n2"
    and "sint n1 + sint n2 \<le> sint (MaxAccessUnitSize E)"
    and "\<not> adtsMode d"
    and "firstAUParsed d \<or> \<not> adts_wrapped E (data_region p1 n1 @ data_region p2 n2)"
  shows "\<exists>d1 d2 pts.
           Decode E d p1 = Some (d1, Inl ErrMorePacketsNeeded)
           \<and> Decode E d1 p2 = Some (d2, Inr ([data_region p1 n1 @ data_region p2 n2], pts))
           \<and> fragments d2 = []"
proof -
  let ?r1 = "data_region p1 n1" and ?r2 = "data_region p2 n2"
  from assms(4) have c1: "carries E d p1 [n1]" and nn1: "0 \<le> sint n1"
    and le1: "sint n1 \<le> int (length (au_data p1))" by (simp_all add: one_AU_def)
  from assms(5) have c2: "carries E d p2 [n2]" and nn2: "0 \<le> sint n2"
    and le2: "sint n2 \<le> int (length (au_data p2))" by (simp_all add: one_AU_def)
  have u1: "int (unat n1) = sint n1"
    by (rule sint_nonneg_unat, fact)
  have l1: "unat n1 \<le> length (au_data p1)"
    using u1 le1 by linarith
  have len1: "length ?r1 = unat n1"
    using l1 by (simp add: data_region_def)
  define d1 where "d1 = d\<lparr>fragmentedSize := n1, fragments := [?r1]\<rparr>"
  have D1: "Decode E d p1 = Some (d1, Inl ErrMorePacketsNeeded)"
    using assms(1,2) le1 l1 Decode_carries [OF c1]
    by (simp add: decodeUnfragmented_def Let_def d1_def data_region_def)
  have "carries E d1 p2 [n2] = carries E d p2 [n2]"
    by (rule carries_widths) (simp_all add: d1_def)
  with c2 have c2': "carries E d1 p2 [n2]" by simp
  define d3 where "d3 = d\<lparr>fragmentedSize := n1 + n2, fragments := []\<rparr>"
  have f: "finalize E d3 [?r1 @ ?r2] = (d3\<lparr>firstAUParsed := True\<rparr>, Inr [?r1 @ ?r2])"
    using assms(7,8) by (intro finalize_plain) (simp_all add: d3_def)
  obtain pts td' where t: "timeDecode E (timeDecoder d3) (Timestamp p2) = (pts, td')"
    by (cases "timeDecode E (timeDecoder d3) (Timestamp p2)") auto
  have D2: "Decode E d1 p2 =
      Some (d3\<lparr>firstAUParsed := True, timeDecoder := td'\<rparr>, Inr ([?r1 @ ?r2], pts))"
  proof -
    have "Decode E d1 p2 = Some (decodeFragmented E d1 [n2] (au_data p2) p2)"
      using Decode_carries [OF c2'] by (simp add: d1_def)
    also have "decodeFragmented E d1 [n2] (au_data p2) p2 =
        finalize_and_time E (d1\<lparr>fragmentedSize := fragmentedSize d1 + n2, fragments := []\<rparr>)
          [concat (fragments d1) @ take (unat n2) (au_data p2)] p2"
      using assms(3) nn2 le2
    proof (rule decodeFragmented_completes)
      show "sint (fragmentedSize d1) = int (length (concat (fragments d1)))"
        using len1 u1 by (simp add: d1_def)
      show "sint (fragmentedSize d1) + sint n2 \<le> sint (MaxAccessUnitSize E)"
        using assms(6) by (simp add: d1_def)
    qed
    also have "\<dots> = finalize_and_time E d3 [?r1 @ ?r2] p2"
      by (simp add: d1_def d3_def data_region_def)
    also have "\<dots> = (d3\<lparr>firstAUParsed := True, timeDecoder := td'\<rparr>, Inr ([?r1 @ ?r2], pts))"
      using f t by (simp add: finalize_and_time_def d3_def)
    finally show ?thesis .
  qed
  have "fragments (d3\<lparr>firstAUParsed := True, timeDecoder := td'\<rparr>) = []"
    by (simp add: d3_def)
  with D1 D2 show ?thesis by blast
qed

subsection \<open>ADTS mode\<close>

lemma finalize_error:
  assumes "finalize E d aus = (d', Inl e)"
  shows "d' = d \<and> firstAUParsed d \<and> adtsMode d \<and> e \<in> {ErrADTSmultipleAU, ErrADTSDecode, ErrMultipleADTS}"
  using assms
  by (auto simp: finalize_def Let_def split: if_splits option.splits list.splits)

lemma finalize_state:
  assumes "finalize E d aus = (d', r)"
  shows "(adtsMode d \<longrightarrow> adtsMode d') \<and> (firstAUParsed d \<longrightarrow> firstAUParsed d')
    \<and> fragments d' = fragments d \<and> fragmentedSize d' = fragmentedSize d"
  using assms
  by (auto simp: finalize_def Let_def split: if_splits option.splits list.splits)

lemma finalize_adts_mode:
  assumes "firstAUParsed d" and "adtsMode d"
  shows "finalize E d aus =
     (d, if length aus \<noteq> 1 then Inl ErrADTSmultipleAU
         else case ADTSUnmarshal E (aus ! 0) of
                None \<Rightarrow> Inl ErrADTSDecode
              | Some pkts \<Rightarrow> if length pkts \<noteq> 1 then Inl ErrMultipleADTS else Inr [pkts ! 0])"
proof (cases aus)
  case Nil
  with assms show ?thesis by (simp add: finalize_def)
next
  case (Cons a as)
  with assms show ?thesis
    by (cases as) (simp_all add: finalize_def split: option.splits)
qed

lemma finalize_and_time_error:
  assumes "finalize_and_time E d aus pkt = (d', Inl e)"
  shows "d' = d \<and> firstAUParsed d \<and> adtsMode d \<and> e \<in> {ErrADTSmultipleAU, ErrADTSDecode, ErrMultipleADTS}"
proof -
  obtain d1 r where f: "finalize E d aus = (d1, r)" by (cases "finalize E d aus") auto
  with assms have "r = Inl e \<and> d1 = d'"
    by (cases r) (auto simp: finalize_and_time_def split: prod.splits)
  with f finalize_error [of E d aus d' e] show ?thesis by simp
qed

lemma finalize_and_time_state:
  assumes "finalize_and_time E d aus pkt = (d', r)"
  shows "(adtsMode d \<longrightarrow> adtsMode d') \<and> (firstAUParsed d \<longrightarrow> firstAUParsed d')
    \<and> fragments d' = fragments d \<and> fragmentedSize d' = fragmentedSize d"
proof -
  obtain d1 r1 where f: "finalize E d aus = (d1, r1)" by (cases "finalize E d aus") auto
  from finalize_state [OF f] assms f show ?thesis
    by (cases r1) (auto simp: finalize_and_time_def split: prod.splits)
qed

lemma finalize_and_time_adts_ok:
  assumes "firstAUParsed d" and "adtsMode d"
    and "finalize_and_time E d aus pkt = (d', Inr (aus', pts))"
  shows "\<exists>au x. ADTSUnmarshal E au = Some [x] \<and> aus' = [x]"
proof -
  from assms(3) finalize_adts_mode [OF assms(1,2), of E aus]
  obtain pkts where p: "ADTSUnmarshal E (aus ! 0) = Some pkts" and l: "length pkts = 1"
    and a: "aus' = [pkts ! 0]"
    by (auto simp: finalize_and_time_def split: prod.splits if_splits option.splits)
  from l have "pkts = [pkts ! 0]" by (cases pkts) auto
  with p a show ?thesis by metis
qed

lemma decodeFragmented_state:
  assumes "decodeFragmented E d ns pl pkt = (d', r)"
  shows "(adtsMode d \<longrightarrow> adtsMode d') \<and> (firstAUParsed d \<longrightarrow> firstAUParsed d')"
proof -
  have "\<exists>dm aus. finalize_and_time E dm aus pkt = (d', r) \<and> adtsMode dm = adtsMode d
      \<and> firstAUParsed dm = firstAUParsed d"
    if "adtsMode d' \<noteq> adtsMode d \<or> firstAUParsed d' \<noteq> firstAUParsed d"
    using assms that
    by (auto simp: decodeFragmented_def Let_def split: if_splits)
  then show ?thesis using finalize_and_time_state by blast
qed

lemma decodeUnfragmented_state:
  assumes "decodeUnfragmented E d ns pl pkt = (d', r)"
  shows "(adtsMode d \<longrightarrow> adtsMode d') \<and> (firstAUParsed d \<longrightarrow> firstAUParsed d')"
proof -
  have "\<exists>dm aus. finalize_and_time E dm aus pkt = (d', r) \<and> adtsMode dm = adtsMode d
      \<and> firstAUParsed dm = firstAUParsed d"
    if "adtsMode d' \<noteq> adtsMode d \<or> firstAUParsed d' \<noteq> firstAUParsed d"
    using assms that
    by (auto simp: decodeUnfragmented_def Let_def split: if_splits sum.splits)
  then show ?thesis using finalize_and_time_state by blast
qed

lemma Decode_cases:
  assumes "Decode E d pkt = Some (d', r)"
  shows "(length (Payload pkt) < 2 \<and> d' = d\<lparr>fragments := []\<rparr> \<and> r = Inl ErrShortPayload)
    \<or> (2 \<le> length (Payload pkt) \<and> d' = d \<and>
         (\<exists>e. r = Inl e \<and> e \<in> {ErrAUinvalidLength, ErrReadBits, ErrAUindexNotZero,
                                   ErrAUindexDeltaNotZero, Panic}))
    \<or> (2 \<le> length (Payload pkt) \<and> fragments d \<noteq> [] \<and>
         (\<exists>ns. decodeFragmented E d ns (au_data pkt) pkt = (d', r)))
    \<or> (2 \<le> length (Payload pkt) \<and> fragments d = [] \<and>
         (\<exists>ns. decodeUnfragmented E d ns (au_data pkt) pkt = (d', r)))"
proof (cases "length (Payload pkt) < 2")
  case True
  with assms show ?thesis by (auto simp: Decode_def)
next
  case l: False
  show ?thesis
  proof (cases "headers_len pkt = 0")
    case True
    with assms l show ?thesis by (auto simp: Decode_def Let_def)
  next
    case h: False
    from assms l h obtain x where
      x: "readAUHeaders E d (drop 2 (Payload pkt)) (word_of_int (headers_len pkt)) = Some x"
      by (cases "readAUHeaders E d (drop 2 (Payload pkt)) (word_of_int (headers_len pkt))")
        (auto simp: Decode_def Let_def)
    show ?thesis
    proof (cases x)
      case (Inl e)
      with x readAUHeaders_errors [of E d _ _ e]
      have "e \<in> {ErrReadBits, ErrAUindexNotZero, ErrAUindexDeltaNotZero, Panic}" by blast
      with assms l h x Inl show ?thesis by (auto simp: Decode_def Let_def)
    next
      case (Inr ns)
      with assms l h x show ?thesis
        by (auto simp: Decode_def Let_def au_data_def split: if_splits)
    qed
  qed
qed

lemma Decode_state:
  assumes "Decode E d pkt = Some (d', r)"
  shows "(adtsMode d \<longrightarrow> adtsMode d') \<and> (firstAUParsed d \<longrightarrow> firstAUParsed d')"
  using Decode_cases [OF assms] decodeFragmented_state decodeUnfragmented_state
  by (elim disjE conjE exE) (simp, simp, blast, blast)

lemma Decode_adts_ok:
  assumes "firstAUParsed d" and "adtsMode d" and "Decode E d pkt = Some (d', Inr (aus', pts))"
  shows "\<exists>au x. ADTSUnmarshal E au = Some [x] \<and> aus' = [x]"
proof -
  have "\<exists>dm aus. finalize_and_time E dm aus pkt = (d', Inr (aus', pts)) \<and> adtsMode dm
      \<and> firstAUParsed dm"
    using Decode_cases [OF assms(3)] assms(1,2)
    by (auto simp: decodeFragmented_def decodeUnfragmented_def Let_def split: if_splits sum.splits)
  then show ?thesis using finalize_and_time_adts_ok by blast
qed

lemma finalize_and_time_first:
  assumes "\<not> firstAUParsed d" and "2 \<le> length au" and "au ! 0 = 0xFF"
    and "(au ! 1) AND 0xF0 = 0xF0" and "ADTSUnmarshal E au = Some [x]"
  shows "finalize_and_time E d [au] pkt =
     stamped E (d\<lparr>firstAUParsed := True, adtsMode := True\<rparr>) pkt [x]"
  using assms by (simp add: finalize_and_time_def finalize_def stamped_def)

lemma finalize_and_time_adts:
  assumes "firstAUParsed d" and "adtsMode d"
  shows "finalize_and_time E d aus pkt =
     (if length aus \<noteq> 1 then (d, Inl ErrADTSmultipleAU)
      else case ADTSUnmarshal E (aus ! 0) of
             None \<Rightarrow> (d, Inl ErrADTSDecode)
           | Some pkts \<Rightarrow> if length pkts \<noteq> 1 then (d, Inl ErrMultipleADTS)
                          else stamped E d pkt [pkts ! 0])"
  unfolding finalize_and_time_def finalize_adts_mode [OF assms] stamped_def
  by (simp split: option.splits)

lemma delivers_Decode:
  assumes "delivers E d pkt n au d0"
  shows "Decode E d pkt = Some (finalize_and_time E d0 [au] pkt)"
proof -
  from assms have m: "Marker pkt" and c: "carries E d pkt [n]" and nn: "0 \<le> sint n"
    and le: "sint n \<le> int (length (au_data pkt))"
    by (simp_all add: delivers_def one_AU_def)
  show ?thesis
  proof (cases "fragments d = []")
    case True
    with assms have "au = data_region pkt n" and "d0 = d" by (simp_all add: delivers_def)
    with True Decode_carries [OF c] decodeUnfragmented_whole [OF m nn le, of E d]
    show ?thesis by (simp add: data_region_def)
  next
    case False
    with assms have s: "sint (fragmentedSize d) = int (length (concat (fragments d)))"
      and t: "sint (fragmentedSize d) + sint n \<le> sint (MaxAccessUnitSize E)"
      and "au = concat (fragments d) @ data_region pkt n"
      and "d0 = d\<lparr>fragmentedSize := fragmentedSize d + n, fragments := []\<rparr>"
      by (simp_all add: delivers_def)
    with False Decode_carries [OF c] decodeFragmented_completes [OF m nn le s t]
    show ?thesis by (simp add: data_region_def)
  qed
qed

lemma split_aus_length: "split_aus pl ns = Inr aus \<Longrightarrow> length aus = length ns"
proof (induction ns arbitrary: pl aus)
  case Nil
  then show ?case by simp
next
  case (Cons n ns)
  from Cons.prems obtain as where "split_aus (drop (unat n) pl) ns = Inr as" and "aus = take (unat n) pl # as"
    by (auto split: if_splits sum.splits)
  with Cons.IH [of "drop (unat n) pl" as] show ?case by simp
qed

text \<open>
  Claim C5, as amended. On the first access unit that a \<open>Decode\<close> completes (the decoder
  has parsed no AU before), a single AU of at least two bytes that begins with \<open>0xFF\<close> and
  a byte with the upper four bits set, and that parses as one ADTS frame, makes \<open>Decode\<close>
  switch the decoder to ADTS mode and return the payload of the frame. From then on, on a
  decoder in ADTS mode, \<open>Decode\<close> returns \<open>ErrADTSmultipleAU\<close> for a packet that holds a
  number of AUs other than one; for a completed AU it returns the error \<open>ErrADTSDecode\<close>
  (the wrapped error of the parser) when the AU does not parse, \<open>ErrMultipleADTS\<close> when it
  parses as a number of frames other than one, and otherwise the payload of the frame as
  the one AU. No \<open>Decode\<close> leaves ADTS mode or resets the first-AU flag, and whatever
  \<open>Decode\<close> returns in ADTS mode is one AU, the payload of the one frame of some AU.
\<close>

theorem adts_unwrapping:
  "(delivers E d pkt n au d0 \<and> \<not> firstAUParsed d \<and> 2 \<le> length au \<and> au ! 0 = 0xFF \<and>
      (au ! 1) AND 0xF0 = 0xF0 \<and> ADTSUnmarshal E au = Some [x] \<longrightarrow>
        Decode E d pkt = Some (stamped E (d0\<lparr>firstAUParsed := True, adtsMode := True\<rparr>) pkt [x]))
   \<and> (delivers E d pkt n au d0 \<and> firstAUParsed d \<and> adtsMode d \<longrightarrow>
        Decode E d pkt =
          Some (case ADTSUnmarshal E au of
                  None \<Rightarrow> (d0, Inl ErrADTSDecode)
                | Some pkts \<Rightarrow> if length pkts \<noteq> 1 then (d0, Inl ErrMultipleADTS)
                               else stamped E d0 pkt [pkts ! 0]))
   \<and> (firstAUParsed d \<and> adtsMode d \<and> fragments d = [] \<and> Marker pkt \<and> carries E d pkt ns \<and>
      split_aus (au_data pkt) ns = Inr aus \<and> length ns \<noteq> 1 \<longrightarrow>
        Decode E d pkt = Some (d, Inl ErrADTSmultipleAU))
   \<and> (Decode E d pkt = Some (d', r) \<longrightarrow>
        (adtsMode d \<longrightarrow> adtsMode d') \<and> (firstAUParsed d \<longrightarrow> firstAUParsed d'))
   \<and> (firstAUParsed d \<and> adtsMode d \<and> Decode E d pkt = Some (d', Inr (aus', pts)) \<longrightarrow>
        (\<exists>au' x'. ADTSUnmarshal E au' = Some [x'] \<and> aus' = [x']))"
proof -
  have a: "Decode E d pkt = Some (stamped E (d0\<lparr>firstAUParsed := True, adtsMode := True\<rparr>) pkt [x])"
    if h: "delivers E d pkt n au d0 \<and> \<not> firstAUParsed d \<and> 2 \<le> length au \<and> au ! 0 = 0xFF \<and>
      (au ! 1) AND 0xF0 = 0xF0 \<and> ADTSUnmarshal E au = Some [x]"
  proof -
    from h have "firstAUParsed d0 = firstAUParsed d"
      by (auto simp: delivers_def split: if_splits)
    with h have "\<not> firstAUParsed d0" by simp
    from finalize_and_time_first [OF this, of au E x pkt] h delivers_Decode [of E d pkt n au d0]
    show ?thesis by simp
  qed
  have b: "Decode E d pkt =
          Some (case ADTSUnmarshal E au of
                  None \<Rightarrow> (d0, Inl ErrADTSDecode)
                | Some pkts \<Rightarrow> if length pkts \<noteq> 1 then (d0, Inl ErrMultipleADTS)
                               else stamped E d0 pkt [pkts ! 0])"
    if h: "delivers E d pkt n au d0 \<and> firstAUParsed d \<and> adtsMode d"
  proof -
    from h have "firstAUParsed d0 = firstAUParsed d" and "adtsMode d0 = adtsMode d"
      by (auto simp: delivers_def split: if_splits)
    with h have "firstAUParsed d0" and "adtsMode d0" by simp_all
    from finalize_and_time_adts [OF this, of E "[au]" pkt] h delivers_Decode [of E d pkt n au d0]
    show ?thesis by simp
  qed
  have m: "Decode E d pkt = Some (d, Inl ErrADTSmultipleAU)"
    if h: "firstAUParsed d \<and> adtsMode d \<and> fragments d = [] \<and> Marker pkt \<and> carries E d pkt ns \<and>
      split_aus (au_data pkt) ns = Inr aus \<and> length ns \<noteq> 1"
  proof -
    from h have l: "length aus \<noteq> 1" using split_aus_length [of "au_data pkt" ns aus] by simp
    from h have "Decode E d pkt = Some (finalize_and_time E d aus pkt)"
      using Decode_carries [of E d pkt ns] by (simp add: decodeUnfragmented_def)
    with h l finalize_and_time_adts [of d E aus pkt] show ?thesis by simp
  qed
  have c: "(adtsMode d \<longrightarrow> adtsMode d') \<and> (firstAUParsed d \<longrightarrow> firstAUParsed d')"
    if "Decode E d pkt = Some (d', r)"
    using that by (rule Decode_state)
  have e: "\<exists>au' x'. ADTSUnmarshal E au' = Some [x'] \<and> aus' = [x']"
    if "firstAUParsed d \<and> adtsMode d \<and> Decode E d pkt = Some (d', Inr (aus', pts))"
    using that Decode_adts_ok by blast
  from a b m c e show ?thesis by blast
qed

subsection \<open>The fragment buffer on errors\<close>

lemma split_aus_error: "split_aus pl ns = Inl e \<Longrightarrow> e = ErrShortPayload \<or> e = Panic"
proof (induction ns arbitrary: pl)
  case Nil
  then show ?case by simp
next
  case (Cons n ns)
  show ?case
  proof (cases "int (length pl) < sint n \<or> length pl < unat n")
    case True
    with Cons.prems show ?thesis by (auto split: if_splits)
  next
    case False
    with Cons.prems have "split_aus (drop (unat n) pl) ns = Inl e"
      by (cases "split_aus (drop (unat n) pl) ns") simp_all
    then show ?thesis by (rule Cons.IH)
  qed
qed

lemma decodeFragmented_error:
  assumes "decodeFragmented E d ns pl pkt = (d', Inl e)"
  shows "(e = ErrFragMultipleAU \<and> d' = d\<lparr>fragments := []\<rparr>)
    \<or> (e = ErrShortPayload \<and> d' = d)
    \<or> ((\<exists>k. e = AUsizeToBigError k) \<and> fragments d' = [])
    \<or> e = Panic
    \<or> e = ErrMorePacketsNeeded
    \<or> (e \<in> {ErrADTSmultipleAU, ErrADTSDecode, ErrMultipleADTS} \<and> fragments d' = [] \<and> Marker pkt)"
proof (cases "length ns \<noteq> 1")
  case True
  with assms have "e = ErrFragMultipleAU \<and> d' = d\<lparr>fragments := []\<rparr>"
    by (simp add: decodeFragmented_def)
  then show ?thesis by simp
next
  case False
  then obtain n where ns: "ns = [n]"
    by (cases ns) auto
  note df = assms [unfolded ns decodeFragmented_def Let_def, simplified]
  show ?thesis
  proof (cases "int (length pl) < sint n")
    case True
    with df have "e = ErrShortPayload \<and> d' = d" by simp
    then show ?thesis by simp
  next
    case ns: False
    show ?thesis
    proof (cases "sint (MaxAccessUnitSize E) < sint (fragmentedSize d + n)")
      case True
      with df ns have "(\<exists>k. e = AUsizeToBigError k) \<and> fragments d' = []" by auto
      then show ?thesis by simp
    next
      case fits: False
      show ?thesis
      proof (cases "length pl < unat n")
        case True
        with df ns fits have "e = Panic" by simp
        then show ?thesis by simp
      next
        case inb: False
        show ?thesis
        proof (cases "Marker pkt")
          case False
          with df ns fits inb have "e = ErrMorePacketsNeeded" by simp
          then show ?thesis by simp
        next
          case m: True
          show ?thesis
          proof (cases "sint (fragmentedSize d + n) < 0")
            case True
            with df ns fits inb m have "e = Panic" by simp
            then show ?thesis by simp
          next
            case False
            with df ns fits inb m obtain dm aus where
              "finalize_and_time E dm aus pkt = (d', Inl e)" and "fragments dm = []" by simp
            with finalize_and_time_error [of E dm aus pkt d' e]
            have "e \<in> {ErrADTSmultipleAU, ErrADTSDecode, ErrMultipleADTS} \<and> fragments d' = []"
              by simp
            with m show ?thesis by simp
          qed
        qed
      qed
    qed
  qed
qed

lemma decodeUnfragmented_error:
  assumes "decodeUnfragmented E d ns pl pkt = (d', Inl e)"
  shows "(e \<in> {ErrShortPayload, ErrFragMultipleAU, ErrADTSmultipleAU, ErrADTSDecode, ErrMultipleADTS}
            \<and> d' = d)
    \<or> e = Panic \<or> e = ErrMorePacketsNeeded"
proof (cases "Marker pkt")
  case False
  with assms show ?thesis
    by (auto simp: decodeUnfragmented_def Let_def split: if_splits)
next
  case True
  show ?thesis
  proof (cases "split_aus pl ns")
    case (Inl e')
    with assms True split_aus_error [of pl ns e'] show ?thesis
      by (auto simp: decodeUnfragmented_def)
  next
    case (Inr aus)
    with assms True have "finalize_and_time E d aus pkt = (d', Inl e)"
      by (simp add: decodeUnfragmented_def)
    from finalize_and_time_error [OF this] show ?thesis by auto
  qed
qed

text \<open>
  Claim C10, as amended. When \<open>Decode\<close> returns an error: after \<open>ErrShortPayload\<close> for a
  payload of less than two bytes, after \<open>ErrFragMultipleAU\<close> and after
  \<open>AUsizeToBigError\<close> the fragment buffer is empty; after \<open>ErrAUinvalidLength\<close>,
  \<open>ErrAUindexNotZero\<close>, \<open>ErrAUindexDeltaNotZero\<close>, \<open>ErrReadBits\<close> and after
  \<open>ErrShortPayload\<close> for a payload of two bytes or more the decoder is as before, with
  its fragment buffer and its size counter; after an error of \<open>finalize\<close> in ADTS mode
  the buffer is empty, and it was emptied by this call exactly when a packet with the
  marker completed a pending fragment.
\<close>

theorem Decode_error_frame:
  assumes "Decode E d pkt = Some (d', Inl e)"
  shows "(e = ErrShortPayload \<and> length (Payload pkt) < 2 \<or> e = ErrFragMultipleAU
            \<or> (\<exists>k. e = AUsizeToBigError k) \<longrightarrow> fragments d' = [])
    \<and> (e \<in> {ErrAUinvalidLength, ErrAUindexNotZero, ErrAUindexDeltaNotZero, ErrReadBits}
            \<or> e = ErrShortPayload \<and> 2 \<le> length (Payload pkt) \<longrightarrow>
          fragments d' = fragments d \<and> fragmentedSize d' = fragmentedSize d \<and> d' = d)
    \<and> (e \<in> {ErrADTSmultipleAU, ErrADTSDecode, ErrMultipleADTS} \<longrightarrow>
          fragments d' = [] \<and> (fragments d = [] \<longrightarrow> d' = d) \<and> (fragments d \<noteq> [] \<longrightarrow> Marker pkt))"
proof -
  consider
    (short) "length (Payload pkt) < 2" "d' = d\<lparr>fragments := []\<rparr>" "e = ErrShortPayload"
  | (headers) "2 \<le> length (Payload pkt)" "d' = d"
      "e \<in> {ErrAUinvalidLength, ErrReadBits, ErrAUindexNotZero, ErrAUindexDeltaNotZero, Panic}"
  | (frag) ns where "2 \<le> length (Payload pkt)" "fragments d \<noteq> []"
      "decodeFragmented E d ns (au_data pkt) pkt = (d', Inl e)"
  | (unfrag) ns where "2 \<le> length (Payload pkt)" "fragments d = []"
      "decodeUnfragmented E d ns (au_data pkt) pkt = (d', Inl e)"
    using Decode_cases [OF assms] by auto
  then show ?thesis
  proof cases
    case short
    then show ?thesis by auto
  next
    case headers
    then show ?thesis by auto
  next
    case frag
    from decodeFragmented_error [OF frag(3)] frag(1,2) show ?thesis by auto
  next
    case unfrag
    from decodeUnfragmented_error [OF unfrag(3)] unfrag(1,2) show ?thesis by auto
  qed
qed

subsection \<open>The examples, evaluated\<close>

lemmas header_eval = carries_def headers_len_def headers_bytes_def readAUHeaders_def
  count_loop.simps read_loop.simps read_header_def msb_ReadBits_def bits_value.simps
  read_bit_def example_deps_def example_decoder_def

lemma carries_frag1: "carries example_deps example_decoder frag1 [2]"
  by (simp add: frag1_def header_eval)

lemma carries_frag2: "carries example_deps example_decoder frag2 [3]"
  by (simp add: frag2_def header_eval)

lemma carries_adts1: "carries example_deps example_decoder adts1 [4]"
  by (simp add: adts1_def header_eval)

lemma carries_adts2: "carries example_deps example_decoder adts2 [5]"
  by (simp add: adts2_def header_eval)

lemma carries_big: "carries example_deps example_decoder (big m) [3000]"
  by (simp add: big_def header_eval)

lemma carries_truncated: "carries example_deps example_decoder truncated [6000]"
  by (simp add: truncated_def header_eval)

lemma replicate_2: "replicate 2 x = [x, x]"
  by (simp add: numeral_2_eq_2)

lemma carries_adts_whole: "carries example_deps example_decoder adts_whole [9]"
  by (simp add: adts_whole_def header_eval)

lemma carries_two_aus: "carries example_deps example_decoder two_aus [1, 2]"
  by (simp add: two_aus_def header_eval replicate_2)

lemma au_data_examples:
  "au_data frag1 = [1, 2]" "au_data frag2 = [3, 4, 5]"
  "au_data adts1 = [0xFF, 0xF1, 0x50, 0x80]" "au_data adts2 = [0x01, 0x3F, 0xFC, 0xAA, 0xBB]"
  "au_data (big m) = replicate 3000 0" "au_data truncated = []" "au_data two_aus = [1, 2, 3]"
  "au_data adts_whole = [0xFF, 0xF1, 0x50, 0x80, 0x01, 0x3F, 0xFC, 0xAA, 0xBB]"
  by (simp_all add: au_data_def headers_len_def headers_bytes_def frag1_def frag2_def adts1_def
      adts2_def big_def truncated_def two_aus_def adts_whole_def)

lemma one_AU_examples:
  "one_AU example_deps example_decoder frag1 2" "one_AU example_deps example_decoder frag2 3"
  "one_AU example_deps example_decoder adts1 4" "one_AU example_deps example_decoder adts2 5"
  "one_AU example_deps example_decoder (big m) 3000"
  by (simp_all add: one_AU_def carries_frag1 carries_frag2 carries_adts1 carries_adts2 carries_big
      au_data_examples)

lemma data_region_examples:
  "data_region frag1 2 = [1, 2]" "data_region frag2 3 = [3, 4, 5]"
  "data_region adts1 4 = [0xFF, 0xF1, 0x50, 0x80]"
  "data_region adts2 5 = [0x01, 0x3F, 0xFC, 0xAA, 0xBB]"
  "data_region (big m) 3000 = replicate 3000 0"
  by (simp_all add: data_region_def au_data_examples)

lemma adts_Unmarshal_frame:
  "adts_Unmarshal [0xFF, 0xF1, 0x50, 0x80, 0x01, 0x3F, 0xFC, 0xAA, 0xBB] = Some [[0xAA, 0xBB]]"
  by (simp add: adts_Unmarshal_def adts_frame_len_def)

lemma adts_Unmarshal_short: "length au < 8 \<Longrightarrow> adts_Unmarshal au = None"
  by (cases "length au") (simp_all add: adts_Unmarshal_def)

lemma packet_fields:
  "\<not> Marker frag1" "Marker frag2" "\<not> Marker adts1" "Marker adts2" "Marker (big m) = m"
  "Marker truncated" "Marker two_aus" "Marker adts_whole"
  "Timestamp frag2 = 9" "Timestamp adts2 = 9" "Timestamp adts_whole = 9"
  by (simp_all add: frag1_def frag2_def adts1_def adts2_def big_def truncated_def two_aus_def
      adts_whole_def)

lemma carries_example_widths:
  assumes "SizeLength d = 13" "IndexLength d = 3" "IndexDeltaLength d = 3"
  shows "carries example_deps d pkt ns = carries example_deps example_decoder pkt ns"
  by (rule carries_widths) (simp_all add: assms example_decoder_def)

lemma Decode_example:
  assumes "carries example_deps example_decoder pkt ns"
    and "SizeLength d = 13" "IndexLength d = 3" "IndexDeltaLength d = 3"
  shows "Decode example_deps d pkt =
     Some (if fragments d \<noteq> [] then decodeFragmented example_deps d ns (au_data pkt) pkt
           else decodeUnfragmented example_deps d ns (au_data pkt) pkt)"
  using assms(1) carries_example_widths [OF assms(2-4), of pkt ns]
  by (intro Decode_carries) simp

lemmas decoder_examples = example_decoder_def pending_decoder_def pending_adts_decoder_def
  adts_decoder_def

lemma Decode_adts1:
  "Decode example_deps example_decoder adts1 =
     Some (example_decoder\<lparr>fragmentedSize := 4, fragments := [[0xFF, 0xF1, 0x50, 0x80]]\<rparr>,
           Inl ErrMorePacketsNeeded)"
  by (subst Decode_example [OF carries_adts1])
    (simp_all add: decoder_examples decodeUnfragmented_def Let_def au_data_examples packet_fields)

lemma Decode_adts2:
  "Decode example_deps
       (example_decoder\<lparr>fragmentedSize := 4, fragments := [[0xFF, 0xF1, 0x50, 0x80]]\<rparr>) adts2 =
     Some (example_decoder\<lparr>fragmentedSize := 9, fragments := [], firstAUParsed := True,
             adtsMode := True\<rparr>, Inr ([[0xAA, 0xBB]], 9))"
  by (subst Decode_example [OF carries_adts2])
    (simp_all add: decoder_examples decodeFragmented_def Let_def au_data_examples packet_fields
      example_deps_def join_fragments_def finalize_and_time_def finalize_def
      adts_Unmarshal_frame)

lemma Decode_big1:
  "Decode example_deps example_decoder (big False) =
     Some (example_decoder\<lparr>fragmentedSize := 3000, fragments := [replicate 3000 0]\<rparr>,
           Inl ErrMorePacketsNeeded)"
  by (subst Decode_example [OF carries_big])
    (simp_all add: decoder_examples decodeUnfragmented_def Let_def au_data_examples packet_fields)

lemma Decode_big2:
  "Decode example_deps
       (example_decoder\<lparr>fragmentedSize := 3000, fragments := [replicate 3000 0]\<rparr>) (big True) =
     Some (example_decoder\<lparr>fragmentedSize := 6000, fragments := []\<rparr>,
           Inl (AUsizeToBigError 6000))"
  by (subst Decode_example [OF carries_big])
    (simp_all add: decoder_examples decodeFragmented_def Let_def au_data_examples packet_fields
      example_deps_def)

lemma Decode_truncated:
  "Decode example_deps pending_decoder truncated = Some (pending_decoder, Inl ErrShortPayload)"
  by (subst Decode_example [OF carries_truncated])
    (simp_all add: decoder_examples decodeFragmented_def Let_def au_data_examples packet_fields)

lemma Decode_pending_adts:
  "Decode example_deps pending_adts_decoder frag2 =
     Some (pending_adts_decoder\<lparr>fragmentedSize := 5, fragments := []\<rparr>, Inl ErrADTSDecode)"
  by (subst Decode_example [OF carries_frag2])
    (simp_all add: decoder_examples decodeFragmented_def Let_def au_data_examples packet_fields
      example_deps_def join_fragments_def finalize_and_time_def finalize_def
      adts_Unmarshal_short)

lemma Decode_adts_garbage:
  "Decode example_deps adts_decoder frag2 = Some (adts_decoder, Inl ErrADTSDecode)"
  by (subst Decode_example [OF carries_frag2])
    (simp_all add: decoder_examples decodeUnfragmented_def Let_def au_data_examples packet_fields
      example_deps_def finalize_and_time_def finalize_def adts_Unmarshal_short)

lemma Decode_adts_whole:
  "Decode example_deps adts_decoder adts_whole = Some (adts_decoder, Inr ([[0xAA, 0xBB]], 9))"
  by (subst Decode_example [OF carries_adts_whole])
    (simp_all add: decoder_examples decodeUnfragmented_def Let_def au_data_examples packet_fields
      example_deps_def finalize_and_time_def finalize_def adts_Unmarshal_frame)

lemma Decode_empty_payload:
  "Decode example_deps pending_decoder \<lparr>Marker = True, Timestamp = 9, Payload = [0]\<rparr> =
     Some (pending_decoder\<lparr>fragments := []\<rparr>, Inl ErrShortPayload)"
  by (simp add: Decode_def)

lemma Decode_two_aus:
  "Decode example_deps pending_decoder two_aus =
     Some (pending_decoder\<lparr>fragments := []\<rparr>, Inl ErrFragMultipleAU)"
  by (subst Decode_example [OF carries_two_aus])
    (simp_all add: decoder_examples decodeFragmented_def)

lemma carries_adts_double: "carries example_deps example_decoder adts_double [18]"
  by (simp add: adts_double_def header_eval)

lemma au_data_adts_double:
  "au_data adts_double = [0xFF, 0xF1, 0x50, 0x80, 0x01, 0x3F, 0xFC, 0xAA, 0xBB,
                          0xFF, 0xF1, 0x50, 0x80, 0x01, 0x3F, 0xFC, 0xAA, 0xBB]"
  by (simp add: au_data_def headers_len_def headers_bytes_def adts_double_def)

lemma adts_Unmarshal_double:
  "adts_Unmarshal [0xFF, 0xF1, 0x50, 0x80, 0x01, 0x3F, 0xFC, 0xAA, 0xBB,
                   0xFF, 0xF1, 0x50, 0x80, 0x01, 0x3F, 0xFC, 0xAA, 0xBB]
     = Some [[0xAA, 0xBB], [0xAA, 0xBB]]"
  by (simp add: adts_Unmarshal_def adts_frame_len_def)

lemma Decode_full:
  "Decode example_deps full_decoder frag1 =
     Some (full_decoder\<lparr>fragmentedSize := 0x8000000000000001, fragments := [[1, 2], [1, 2]]\<rparr>,
           Inl ErrMorePacketsNeeded)"
  by (subst Decode_example [OF carries_frag1])
    (simp_all add: decoder_examples full_decoder_def decodeFragmented_def Let_def
      au_data_examples packet_fields example_deps_def)

lemma Decode_adts_two_aus:
  "Decode example_deps adts_decoder two_aus = Some (adts_decoder, Inl ErrADTSmultipleAU)"
  by (subst Decode_example [OF carries_two_aus])
    (simp_all add: decoder_examples decodeUnfragmented_def Let_def au_data_examples packet_fields
      example_deps_def finalize_and_time_def finalize_def)

text \<open>The access units that the example packets complete.\<close>

lemma one_AU_example_widths:
  assumes "SizeLength d = 13" "IndexLength d = 3" "IndexDeltaLength d = 3"
  shows "one_AU example_deps d pkt n = one_AU example_deps example_decoder pkt n"
  by (simp add: one_AU_def carries_example_widths [OF assms])

lemma one_AU_more:
  "one_AU example_deps example_decoder adts_whole 9"
  "one_AU example_deps example_decoder adts_double 18"
  by (simp_all add: one_AU_def carries_adts_whole carries_adts_double au_data_examples
      au_data_adts_double)

lemma data_region_more:
  "data_region adts_whole 9 = [0xFF, 0xF1, 0x50, 0x80, 0x01, 0x3F, 0xFC, 0xAA, 0xBB]"
  "data_region adts_double 18 = [0xFF, 0xF1, 0x50, 0x80, 0x01, 0x3F, 0xFC, 0xAA, 0xBB,
                                 0xFF, 0xF1, 0x50, 0x80, 0x01, 0x3F, 0xFC, 0xAA, 0xBB]"
  by (simp_all add: data_region_def au_data_examples au_data_adts_double)

lemma delivers_examples:
  "delivers example_deps example_decoder adts_whole 9
     [0xFF, 0xF1, 0x50, 0x80, 0x01, 0x3F, 0xFC, 0xAA, 0xBB] example_decoder"
  "delivers example_deps adts_decoder adts_whole 9
     [0xFF, 0xF1, 0x50, 0x80, 0x01, 0x3F, 0xFC, 0xAA, 0xBB] adts_decoder"
  "delivers example_deps adts_decoder frag2 3 [3, 4, 5] adts_decoder"
  "delivers example_deps adts_decoder adts_double 18
     [0xFF, 0xF1, 0x50, 0x80, 0x01, 0x3F, 0xFC, 0xAA, 0xBB,
      0xFF, 0xF1, 0x50, 0x80, 0x01, 0x3F, 0xFC, 0xAA, 0xBB] adts_decoder"
proof -
  have w: "SizeLength adts_decoder = 13" "IndexLength adts_decoder = 3"
    "IndexDeltaLength adts_decoder = 3"
    by (simp_all add: decoder_examples)
  have f: "fragments example_decoder = []" "fragments adts_decoder = []"
    by (simp_all add: decoder_examples)
  have md: "Marker adts_double"
    by (simp add: adts_double_def)
  show "delivers example_deps example_decoder adts_whole 9
     [0xFF, 0xF1, 0x50, 0x80, 0x01, 0x3F, 0xFC, 0xAA, 0xBB] example_decoder"
    by (simp add: delivers_def f one_AU_more data_region_more packet_fields)
  show "delivers example_deps adts_decoder adts_whole 9
     [0xFF, 0xF1, 0x50, 0x80, 0x01, 0x3F, 0xFC, 0xAA, 0xBB] adts_decoder"
    by (simp add: delivers_def f one_AU_example_widths [OF w] one_AU_more data_region_more
        packet_fields)
  show "delivers example_deps adts_decoder frag2 3 [3, 4, 5] adts_decoder"
    by (simp add: delivers_def f one_AU_example_widths [OF w] one_AU_examples
        data_region_examples packet_fields)
  show "delivers example_deps adts_decoder adts_double 18
     [0xFF, 0xF1, 0x50, 0x80, 0x01, 0x3F, 0xFC, 0xAA, 0xBB,
      0xFF, 0xF1, 0x50, 0x80, 0x01, 0x3F, 0xFC, 0xAA, 0xBB] adts_decoder"
    by (simp add: delivers_def f one_AU_example_widths [OF w] one_AU_more data_region_more md)
qed

lemma delivers_pending:
  "delivers example_deps pending_adts_decoder frag2 3 [1, 2, 3, 4, 5]
     (pending_adts_decoder\<lparr>fragmentedSize := 5, fragments := []\<rparr>)"
  "delivers example_deps
     (example_decoder\<lparr>fragmentedSize := 4, fragments := [[0xFF, 0xF1, 0x50, 0x80]]\<rparr>) adts2 5
     [0xFF, 0xF1, 0x50, 0x80, 0x01, 0x3F, 0xFC, 0xAA, 0xBB]
     (example_decoder\<lparr>fragmentedSize := 9, fragments := []\<rparr>)"
proof -
  let ?d = "example_decoder\<lparr>fragmentedSize := 4, fragments := [[0xFF, 0xF1, 0x50, 0x80]]\<rparr>"
  have w: "SizeLength pending_adts_decoder = 13" "IndexLength pending_adts_decoder = 3"
    "IndexDeltaLength pending_adts_decoder = 3"
    "SizeLength ?d = 13" "IndexLength ?d = 3" "IndexDeltaLength ?d = 3"
    by (simp_all add: decoder_examples)
  have f: "fragments pending_adts_decoder = [[1, 2]]" "fragmentedSize pending_adts_decoder = 2"
    "fragments ?d = [[0xFF, 0xF1, 0x50, 0x80]]" "fragmentedSize ?d = 4"
    "MaxAccessUnitSize example_deps = 5120"
    by (simp_all add: decoder_examples example_deps_def)
  show "delivers example_deps pending_adts_decoder frag2 3 [1, 2, 3, 4, 5]
     (pending_adts_decoder\<lparr>fragmentedSize := 5, fragments := []\<rparr>)"
    by (simp add: delivers_def f(1,2,5) one_AU_example_widths [OF w(1-3)] one_AU_examples
        data_region_examples packet_fields)
  show "delivers example_deps ?d adts2 5
     [0xFF, 0xF1, 0x50, 0x80, 0x01, 0x3F, 0xFC, 0xAA, 0xBB]
     (example_decoder\<lparr>fragmentedSize := 9, fragments := []\<rparr>)"
    by (simp add: delivers_def f(3,4,5) one_AU_example_widths [OF w(4-6)] one_AU_examples
        data_region_examples packet_fields)
qed

subsection \<open>Instances of the theorems on the decoder\<close>

theorem fragmented_reassembly_witness:
  "one_AU example_deps example_decoder frag1 2 \<and> one_AU example_deps example_decoder frag2 3
   \<and> (\<exists>d1 d2 pts.
         Decode example_deps example_decoder frag1 = Some (d1, Inl ErrMorePacketsNeeded)
         \<and> Decode example_deps d1 frag2 = Some (d2, Inr ([[1, 2, 3, 4, 5]], pts))
         \<and> fragments d2 = [])"
  using fragmented_reassembly [where d = example_decoder and E = example_deps and ?p1.0 = frag1
      and ?p2.0 = frag2 and ?n1.0 = 2 and ?n2.0 = 3]
    one_AU_examples(1,2) packet_fields(1,2)
  by (simp add: data_region_examples adts_wrapped_def)
    (simp add: example_decoder_def example_deps_def)

theorem fragmented_reassembly_counterexample:
  "\<not> Marker adts1 \<and> Marker adts2
   \<and> one_AU example_deps example_decoder adts1 4 \<and> one_AU example_deps example_decoder adts2 5
   \<and> Decode example_deps example_decoder adts1 =
        Some (example_decoder\<lparr>fragmentedSize := 4, fragments := [[0xFF, 0xF1, 0x50, 0x80]]\<rparr>,
              Inl ErrMorePacketsNeeded)
   \<and> Decode example_deps
         (example_decoder\<lparr>fragmentedSize := 4, fragments := [[0xFF, 0xF1, 0x50, 0x80]]\<rparr>) adts2 =
        Some (example_decoder\<lparr>fragmentedSize := 9, fragments := [], firstAUParsed := True,
                adtsMode := True\<rparr>, Inr ([[0xAA, 0xBB]], 9))
   \<and> data_region adts1 4 @ data_region adts2 5 =
        [0xFF, 0xF1, 0x50, 0x80, 0x01, 0x3F, 0xFC, 0xAA, 0xBB]
   \<and> [[0xAA, 0xBB]] \<noteq> [data_region adts1 4 @ data_region adts2 5]
   \<and> \<not> Marker (big False) \<and> Marker (big True)
   \<and> one_AU example_deps example_decoder (big False) 3000
   \<and> one_AU example_deps example_decoder (big True) 3000
   \<and> Decode example_deps example_decoder (big False) =
        Some (example_decoder\<lparr>fragmentedSize := 3000, fragments := [replicate 3000 0]\<rparr>,
              Inl ErrMorePacketsNeeded)
   \<and> Decode example_deps
         (example_decoder\<lparr>fragmentedSize := 3000, fragments := [replicate 3000 0]\<rparr>) (big True) =
        Some (example_decoder\<lparr>fragmentedSize := 6000, fragments := []\<rparr>,
              Inl (AUsizeToBigError 6000))"
  using packet_fields(3,4) one_AU_examples(3,4) one_AU_examples(5) [of False]
    one_AU_examples(5) [of True] Decode_adts1 Decode_adts2 Decode_big1 Decode_big2
  by (simp add: data_region_examples packet_fields(5))

theorem fragmented_oversize_witness:
  "Decode example_deps
       (example_decoder\<lparr>fragmentedSize := 3000, fragments := [replicate 3000 0]\<rparr>) (big True) =
     Some (example_decoder\<lparr>fragmentedSize := 6000, fragments := []\<rparr>,
           Inl (AUsizeToBigError 6000))
   \<and> Decode example_deps (example_decoder\<lparr>fragmentedSize := 6000, fragments := []\<rparr>) frag1 =
       Some (decodeUnfragmented example_deps
               (example_decoder\<lparr>fragmentedSize := 6000, fragments := []\<rparr>) [2] (au_data frag1) frag1)
   \<and> sint ((3000 :: go_int) + 3000) = sint (3000 :: go_int) + sint (3000 :: u64)
   \<and> Decode example_deps pending_decoder two_aus =
       Some (pending_decoder\<lparr>fragments := []\<rparr>, Inl ErrFragMultipleAU)"
proof -
  let ?d = "example_decoder\<lparr>fragmentedSize := 3000, fragments := [replicate 3000 0]\<rparr>"
  have w: "SizeLength ?d = 13" "IndexLength ?d = 3" "IndexDeltaLength ?d = 3"
    "SizeLength pending_decoder = 13" "IndexLength pending_decoder = 3"
    "IndexDeltaLength pending_decoder = 3"
    by (simp_all add: decoder_examples)
  have c: "carries example_deps ?d (big True) [3000]" "carries example_deps ?d frag1 [2]"
    "carries example_deps pending_decoder two_aus [1, 2]"
    using carries_big [of True] carries_frag1 carries_two_aus
    by (simp_all add: carries_example_widths [OF w(1-3)] carries_example_widths [OF w(4-6)])
  have m: "sint (MaxAccessUnitSize example_deps) < sint (fragmentedSize ?d + 3000)"
    "sint (MaxAccessUnitSize example_deps) < sint (fragmentedSize ?d) + sint (3000 :: u64)"
    "sint (fragmentedSize ?d) + sint (3000 :: u64) < 2 ^ 63"
    "fragments ?d \<noteq> []" "fragments pending_decoder \<noteq> []"
    by (simp_all add: example_deps_def decoder_examples)
  from fragmented_oversize [where d = ?d and E = example_deps and pkt = "big True" and n = 3000
      and ns = "[]"]
    fragmented_oversize [where d = pending_decoder and E = example_deps and pkt = two_aus
      and n = 0 and ns = "[1, 2]"] c m
  show ?thesis by (simp add: au_data_examples decoder_examples example_deps_def)
qed

theorem fragmented_oversize_counterexample:
  "fragments pending_decoder \<noteq> []
   \<and> carries example_deps pending_decoder truncated [6000]
   \<and> sint (MaxAccessUnitSize example_deps) < sint (fragmentedSize pending_decoder) + sint (6000 :: u64)
   \<and> Decode example_deps pending_decoder truncated = Some (pending_decoder, Inl ErrShortPayload)
   \<and> ErrShortPayload \<noteq> AUsizeToBigError 6002
   \<and> fragments pending_decoder = [[1, 2]]
   \<and> fragments full_decoder \<noteq> []
   \<and> carries example_deps full_decoder frag1 [2]
   \<and> sint (2 :: u64) \<le> int (length (au_data frag1))
   \<and> sint (MaxAccessUnitSize example_deps) < sint (fragmentedSize full_decoder) + sint (2 :: u64)
   \<and> Decode example_deps full_decoder frag1 =
       Some (full_decoder\<lparr>fragmentedSize := 0x8000000000000001, fragments := [[1, 2], [1, 2]]\<rparr>,
             Inl ErrMorePacketsNeeded)
   \<and> sint (0x8000000000000001 :: go_int) < 0"
proof -
  have 1: "carries example_deps pending_decoder truncated [6000]"
    using carries_truncated
    by (subst carries_example_widths) (simp_all add: decoder_examples)
  have 2: "carries example_deps full_decoder frag1 [2]"
    using carries_frag1
    by (subst carries_example_widths) (simp_all add: decoder_examples full_decoder_def)
  from 1 2 show ?thesis
    using Decode_truncated Decode_full
    by (simp add: decoder_examples full_decoder_def example_deps_def au_data_examples)
qed

theorem adts_unwrapping_witness:
  "Decode example_deps example_decoder adts_whole =
     Some (example_decoder\<lparr>firstAUParsed := True, adtsMode := True\<rparr>, Inr ([[0xAA, 0xBB]], 9))
   \<and> Decode example_deps
        (example_decoder\<lparr>fragmentedSize := 4, fragments := [[0xFF, 0xF1, 0x50, 0x80]]\<rparr>) adts2 =
       Some (example_decoder\<lparr>fragmentedSize := 9, fragments := [], firstAUParsed := True,
               adtsMode := True\<rparr>, Inr ([[0xAA, 0xBB]], 9))
   \<and> Decode example_deps adts_decoder adts_whole = Some (adts_decoder, Inr ([[0xAA, 0xBB]], 9))
   \<and> Decode example_deps adts_decoder frag2 = Some (adts_decoder, Inl ErrADTSDecode)
   \<and> Decode example_deps adts_decoder adts_double = Some (adts_decoder, Inl ErrMultipleADTS)
   \<and> Decode example_deps pending_adts_decoder frag2 =
       Some (pending_adts_decoder\<lparr>fragmentedSize := 5, fragments := []\<rparr>, Inl ErrADTSDecode)
   \<and> Decode example_deps adts_decoder two_aus = Some (adts_decoder, Inl ErrADTSmultipleAU)
   \<and> adtsMode adts_decoder \<and> firstAUParsed adts_decoder"
proof -
  let ?frame = "[0xFF, 0xF1, 0x50, 0x80, 0x01, 0x3F, 0xFC, 0xAA, 0xBB] :: byte list"
  let ?d4 = "example_decoder\<lparr>fragmentedSize := 4, fragments := [[0xFF, 0xF1, 0x50, 0x80]]\<rparr>"
  have u: "ADTSUnmarshal example_deps ?frame = Some [[0xAA, 0xBB]]"
    "ADTSUnmarshal example_deps [3, 4, 5] = None"
    "ADTSUnmarshal example_deps [1, 2, 3, 4, 5] = None"
    "ADTSUnmarshal example_deps (?frame @ ?frame) = Some [[0xAA, 0xBB], [0xAA, 0xBB]]"
    using adts_Unmarshal_double
    by (simp_all add: example_deps_def adts_Unmarshal_frame adts_Unmarshal_short)
  have m: "\<not> firstAUParsed example_decoder" "\<not> firstAUParsed ?d4"
    "firstAUParsed adts_decoder" "adtsMode adts_decoder"
    "firstAUParsed pending_adts_decoder" "adtsMode pending_adts_decoder"
    "fragments adts_decoder = []"
    by (simp_all add: decoder_examples)
  have 1: "Decode example_deps example_decoder adts_whole =
      Some (example_decoder\<lparr>firstAUParsed := True, adtsMode := True\<rparr>, Inr ([[0xAA, 0xBB]], 9))"
    using adts_unwrapping [where E = example_deps and d = example_decoder and pkt = adts_whole
        and n = 9 and au = ?frame and ?d0.0 = example_decoder and x = "[0xAA, 0xBB]",
        THEN conjunct1] delivers_examples(1) m(1) u(1)
    by (simp add: stamped_def example_deps_def packet_fields)
  have 2: "Decode example_deps ?d4 adts2 =
      Some (example_decoder\<lparr>fragmentedSize := 9, fragments := [], firstAUParsed := True,
              adtsMode := True\<rparr>, Inr ([[0xAA, 0xBB]], 9))"
    using adts_unwrapping [where E = example_deps and d = ?d4 and pkt = adts2
        and n = 5 and au = ?frame and ?d0.0 = "example_decoder\<lparr>fragmentedSize := 9, fragments := []\<rparr>"
        and x = "[0xAA, 0xBB]", THEN conjunct1] delivers_pending(2) m(2) u(1)
    by (simp add: stamped_def example_deps_def packet_fields)
  have 3: "Decode example_deps adts_decoder adts_whole = Some (adts_decoder, Inr ([[0xAA, 0xBB]], 9))"
    using adts_unwrapping [where E = example_deps and d = adts_decoder and pkt = adts_whole
        and n = 9 and au = ?frame and ?d0.0 = adts_decoder,
        THEN conjunct2, THEN conjunct1] delivers_examples(2) m(3,4) u(1)
    by (simp add: stamped_def example_deps_def packet_fields decoder_examples)
  have 4: "Decode example_deps adts_decoder frag2 = Some (adts_decoder, Inl ErrADTSDecode)"
    using adts_unwrapping [where E = example_deps and d = adts_decoder and pkt = frag2
        and n = 3 and au = "[3, 4, 5]" and ?d0.0 = adts_decoder,
        THEN conjunct2, THEN conjunct1] delivers_examples(3) m(3,4) u(2)
    by simp
  have 5: "Decode example_deps adts_decoder adts_double = Some (adts_decoder, Inl ErrMultipleADTS)"
    using adts_unwrapping [where E = example_deps and d = adts_decoder and pkt = adts_double
        and n = 18 and au = "?frame @ ?frame" and ?d0.0 = adts_decoder,
        THEN conjunct2, THEN conjunct1] delivers_examples(4) m(3,4) u(4)
    by simp
  have 6: "Decode example_deps pending_adts_decoder frag2 =
      Some (pending_adts_decoder\<lparr>fragmentedSize := 5, fragments := []\<rparr>, Inl ErrADTSDecode)"
    using adts_unwrapping [where E = example_deps and d = pending_adts_decoder and pkt = frag2
        and n = 3 and au = "[1, 2, 3, 4, 5]"
        and ?d0.0 = "pending_adts_decoder\<lparr>fragmentedSize := 5, fragments := []\<rparr>",
        THEN conjunct2, THEN conjunct1] delivers_pending(1) m(5,6) u(3)
    by simp
  have s: "split_aus (au_data two_aus) [1, 2] = Inr [[1], [2, 3]]"
    by (simp add: au_data_examples)
  have c: "carries example_deps adts_decoder two_aus [1, 2]"
    using carries_two_aus
    by (subst carries_example_widths) (simp_all add: decoder_examples)
  have 7: "Decode example_deps adts_decoder two_aus = Some (adts_decoder, Inl ErrADTSmultipleAU)"
    using adts_unwrapping [where E = example_deps and d = adts_decoder and pkt = two_aus
        and ns = "[1, 2]" and aus = "[[1], [2, 3]]",
        THEN conjunct2, THEN conjunct2, THEN conjunct1] m(3,4,7) s c packet_fields(7)
    by simp
  from 1 2 3 4 5 6 7 m(3,4) show ?thesis by simp
qed

theorem adts_unwrapping_counterexample:
  "firstAUParsed adts_decoder \<and> adtsMode adts_decoder
   \<and> delivers example_deps adts_decoder frag2 3 [3, 4, 5] adts_decoder
   \<and> ADTSUnmarshal example_deps [3, 4, 5] = None
   \<and> Decode example_deps adts_decoder frag2 = Some (adts_decoder, Inl ErrADTSDecode)
   \<and> ErrADTSDecode \<noteq> ErrMultipleADTS"
  using Decode_adts_garbage delivers_examples(3)
  by (simp add: decoder_examples example_deps_def adts_Unmarshal_short)

theorem Decode_error_frame_witness:
  "Decode example_deps pending_decoder \<lparr>Marker = True, Timestamp = 9, Payload = [0]\<rparr> =
     Some (pending_decoder\<lparr>fragments := []\<rparr>, Inl ErrShortPayload)
   \<and> fragments (pending_decoder\<lparr>fragments := []\<rparr>) = []
   \<and> Decode example_deps pending_decoder truncated = Some (pending_decoder, Inl ErrShortPayload)
   \<and> Decode example_deps pending_adts_decoder frag2 =
       Some (pending_adts_decoder\<lparr>fragmentedSize := 5, fragments := []\<rparr>, Inl ErrADTSDecode)
   \<and> fragments pending_adts_decoder \<noteq> [] \<and> Marker frag2"
proof -
  have 1: "fragments (pending_decoder\<lparr>fragments := []\<rparr>) = []"
    using Decode_error_frame [OF Decode_empty_payload] by simp
  have l: "2 \<le> length (Payload truncated)"
    by (simp add: truncated_def)
  note 2 = Decode_error_frame [OF Decode_truncated, THEN conjunct2, THEN conjunct1, THEN mp,
      OF disjI2, OF conjI, OF refl l]
  have n: "fragments pending_adts_decoder \<noteq> []"
    by (simp add: decoder_examples)
  have 3: "Marker frag2"
    using Decode_error_frame [OF Decode_pending_adts] n by simp
  from 1 2 3 n Decode_empty_payload Decode_truncated Decode_pending_adts
  show ?thesis by simp
qed

theorem Decode_error_frame_counterexample:
  "fragments pending_adts_decoder = [[1, 2]] \<and> fragmentedSize pending_adts_decoder = 2
   \<and> Decode example_deps pending_adts_decoder frag2 =
       Some (pending_adts_decoder\<lparr>fragmentedSize := 5, fragments := []\<rparr>, Inl ErrADTSDecode)
   \<and> fragments (pending_adts_decoder\<lparr>fragmentedSize := 5, fragments := []\<rparr>) = []
   \<and> fragmentedSize (pending_adts_decoder\<lparr>fragmentedSize := 5, fragments := []\<rparr>) = 5
   \<and> ErrADTSDecode \<notin> {ErrShortPayload, ErrFragMultipleAU, AUsizeToBigError 5}"
  using Decode_pending_adts by (simp add: decoder_examples)

section \<open>Properties of the session registry\<close>

lemma setup_guard_other_conn:
  assumes "mode s = Some TCPInterleaved" and "owner s = Some c" and "conns srv c \<noteq> None"
    and "c' \<noteq> c"
  shows "setup_guard srv c' s req \<noteq> None"
proof (cases "transport req")
  case TCPInterleaved
  with assms show ?thesis by (simp add: setup_guard_def)
next
  case UDP
  with assms show ?thesis by (simp add: setup_guard_def)
qed

lemma handle_setup_other_conn:
  assumes "sessions srv sid = Some s" and "mode s = Some TCPInterleaved"
    and "owner s = Some c" and "conns srv c \<noteq> None" and "c' \<noteq> c"
    and "session_header req = Some sid"
  shows "handle_setup srv c' k req = (srv, [Response c' StatusBadRequest])"
proof -
  from setup_guard_other_conn [OF assms(2-5), where req = req]
  obtain e where "setup_guard srv c' s req = Some e"
    by (cases "setup_guard srv c' s req") auto
  with assms(1,6) show ?thesis by (simp add: handle_setup_def)
qed

lemma inv_bound:
  assumes "registry_inv srv" and "conns srv c = Some k" and "bound k = Some sid"
  shows "\<exists>s. sessions srv sid = Some s \<and> (mode s = Some TCPInterleaved \<longrightarrow> owner s = Some c)"
  using assms unfolding registry_inv_def by blast

lemma inv_session:
  assumes "registry_inv srv" and "sessions srv sid = Some s"
  shows "mode s \<noteq> None" and "sid < next_id srv"
  using assms unfolding registry_inv_def by blast+

lemma run_Cons_fst: "fst (run srv (i # is)) = fst (run (fst (step srv i)) is)"
  by (cases "step srv i"; cases "run (fst (step srv i)) is") simp

lemma registry_inv_new: "registry_inv new_server"
  by (simp add: registry_inv_def new_server_def)

lemma registry_inv_accept:
  assumes "registry_inv srv" and "conns srv c = None"
  shows "registry_inv (accept srv c)"
  using assms unfolding registry_inv_def accept_def by auto

lemma registry_inv_drop_conn:
  assumes "registry_inv srv"
  shows "registry_inv (srv\<lparr>conns := (conns srv)(c := None)\<rparr>)"
  using assms unfolding registry_inv_def by auto

lemma registry_inv_destroy:
  assumes "registry_inv srv"
  shows "registry_inv (destroy_session srv sid)"
  using assms unfolding registry_inv_def destroy_session_def unbind_def
  by (auto split: if_splits)

lemma registry_inv_close:
  assumes "registry_inv srv"
  shows "registry_inv (fst (close_conn srv c err))"
  using registry_inv_drop_conn [OF assms, of c]
    registry_inv_destroy [OF registry_inv_drop_conn [OF assms, of c]] assms
  by (auto simp: close_conn_def Let_def split: option.splits)

lemma setup_guard_owner:
  assumes "setup_guard srv c s req = None" and "transport req = TCPInterleaved"
    and "owner s = Some c0" and "conns srv c0 \<noteq> None"
  shows "c0 = c"
  using assms by (auto simp: setup_guard_def split: if_splits)

lemma setup_guard_mode:
  assumes "setup_guard srv c s req = None" and "mode s = Some m"
  shows "transport req = m"
  using assms by (auto simp: setup_guard_def split: if_splits)

lemma registry_inv_setup:
  assumes inv: "registry_inv srv" and k: "conns srv c = Some k"
  shows "registry_inv (fst (handle_setup srv c k req))"
proof (cases "session_header req")
  case None
  show ?thesis
  proof (cases "bound k \<noteq> None \<or> setup_guard srv c
      \<lparr>state = INIT, path = None, tracks = [], mode = None, owner = None\<rparr> req \<noteq> None")
    case True
    with None inv show ?thesis
      by (auto simp: handle_setup_def Let_def split: option.splits)
  next
    case False
    let ?sid = "next_id srv"
    let ?s = "setup_session c \<lparr>state = INIT, path = None, tracks = [], mode = None, owner = None\<rparr> req"
    let ?srv' = "srv\<lparr>sessions := (sessions srv)(?sid \<mapsto> ?s),
        conns := (conns srv)(c \<mapsto> k\<lparr>bound := Some ?sid\<rparr>), next_id := Suc ?sid\<rparr>"
    from None False have h: "fst (handle_setup srv c k req) = ?srv'"
      by (simp add: handle_setup_def Let_def)
    from inv have fresh: "sessions srv ?sid = None"
      unfolding registry_inv_def by (cases "sessions srv ?sid") auto
    have "registry_inv ?srv'"
      unfolding registry_inv_def
    proof (intro conjI allI impI)
      fix c2 k2 sid2
      assume a: "conns ?srv' c2 = Some k2 \<and> bound k2 = Some sid2"
      show "\<exists>s. sessions ?srv' sid2 = Some s \<and> (mode s = Some TCPInterleaved \<longrightarrow> owner s = Some c2)"
      proof (cases "c2 = c")
        case True
        with a show ?thesis by (auto simp: setup_session_def)
      next
        case c2: False
        with a have b: "conns srv c2 = Some k2" "bound k2 = Some sid2" by simp_all
        with inv obtain s2 where s2: "sessions srv sid2 = Some s2"
          "mode s2 = Some TCPInterleaved \<longrightarrow> owner s2 = Some c2"
          unfolding registry_inv_def by blast
        with fresh have "sid2 \<noteq> ?sid" by auto
        with s2 show ?thesis by simp
      qed
    next
      fix sid2 s2
      assume a: "sessions ?srv' sid2 = Some s2"
      show "mode s2 \<noteq> None"
        using a inv unfolding registry_inv_def
        by (cases "sid2 = ?sid") (auto simp: setup_session_def)
      show "sid2 < next_id ?srv'"
        using a inv unfolding registry_inv_def
        by (cases "sid2 = ?sid") (auto simp: less_Suc_eq)
    qed
    with h show ?thesis by simp
  qed
next
  case (Some sid)
  show ?thesis
  proof (cases "sessions srv sid")
    case None
    with Some inv show ?thesis by (simp add: handle_setup_def)
  next
    case s: (Some s)
    show ?thesis
    proof (cases "(bound k \<noteq> None \<and> bound k \<noteq> Some sid) \<or> setup_guard srv c s req \<noteq> None")
      case True
      with Some s inv show ?thesis
        by (auto simp: handle_setup_def split: option.splits)
    next
      case False
      then have bk: "bound k = None \<or> bound k = Some sid" and g: "setup_guard srv c s req = None"
        by auto
      let ?s = "setup_session c s req"
      let ?srv' = "srv\<lparr>sessions := (sessions srv)(sid \<mapsto> ?s),
          conns := (conns srv)(c \<mapsto> k\<lparr>bound := Some sid\<rparr>)\<rparr>"
      from Some s bk g have h: "fst (handle_setup srv c k req) = ?srv'"
        by (auto simp: handle_setup_def)
      from inv_session [OF inv s] obtain m where m: "mode s = Some m" and lt: "sid < next_id srv"
        by (cases "mode s") auto
      from setup_guard_mode [OF g m] have tm: "transport req = m" .
      have "registry_inv ?srv'"
        unfolding registry_inv_def
      proof (intro conjI allI impI)
        fix c2 k2 sid2
        assume a: "conns ?srv' c2 = Some k2 \<and> bound k2 = Some sid2"
        show "\<exists>s. sessions ?srv' sid2 = Some s \<and> (mode s = Some TCPInterleaved \<longrightarrow> owner s = Some c2)"
        proof (cases "c2 = c")
          case True
          with a show ?thesis by (auto simp: setup_session_def)
        next
          case c2: False
          with a have b: "conns srv c2 = Some k2" "bound k2 = Some sid2" by simp_all
          with inv obtain s2 where s2: "sessions srv sid2 = Some s2"
            "mode s2 = Some TCPInterleaved \<longrightarrow> owner s2 = Some c2"
            unfolding registry_inv_def by blast
          show ?thesis
          proof (cases "sid2 = sid")
            case False
            with s2 show ?thesis by simp
          next
            case True
            with s2 s have same: "s2 = s" by simp
            show ?thesis
            proof (cases "m = TCPInterleaved")
              case False
              with True tm show ?thesis by (simp add: setup_session_def)
            next
              case tcp: True
              with s2 same m have "owner s = Some c2" by simp
              from setup_guard_owner [OF g _ this] tm tcp b(1) have "c2 = c" by simp
              with c2 show ?thesis by simp
            qed
          qed
        qed
      next
        fix sid2 s2
        assume a: "sessions ?srv' sid2 = Some s2"
        show "mode s2 \<noteq> None"
          using a inv unfolding registry_inv_def
          by (cases "sid2 = sid") (auto simp: setup_session_def)
        show "sid2 < next_id ?srv'"
          using a inv lt unfolding registry_inv_def
          by (cases "sid2 = sid") auto
      qed
      with h show ?thesis by simp
    qed
  qed
qed

lemma registry_inv_play:
  assumes "registry_inv srv"
  shows "registry_inv (fst (handle_play srv c req))"
proof (cases "session_header req")
  case None
  with assms show ?thesis by (simp add: handle_play_def)
next
  case (Some sid)
  show ?thesis
  proof (cases "sessions srv sid")
    case None
    with Some assms show ?thesis by (simp add: handle_play_def)
  next
    case s: (Some s)
    show ?thesis
    proof (cases "state s = PRE_READY")
      case False
      with Some s assms show ?thesis by (simp add: handle_play_def)
    next
      case True
      with Some s have h: "fst (handle_play srv c req)
          = srv\<lparr>sessions := (sessions srv)(sid \<mapsto> s\<lparr>state := READY\<rparr>)\<rparr>"
        by (simp add: handle_play_def)
      let ?srv' = "srv\<lparr>sessions := (sessions srv)(sid \<mapsto> s\<lparr>state := READY\<rparr>)\<rparr>"
      have "registry_inv ?srv'"
        unfolding registry_inv_def
      proof (intro conjI allI impI)
        fix c2 k2 sid2
        assume "conns ?srv' c2 = Some k2 \<and> bound k2 = Some sid2"
        then have "conns srv c2 = Some k2" "bound k2 = Some sid2" by simp_all
        from inv_bound [OF assms this] obtain s2 where "sessions srv sid2 = Some s2"
          "mode s2 = Some TCPInterleaved \<longrightarrow> owner s2 = Some c2" by blast
        with s show "\<exists>s. sessions ?srv' sid2 = Some s \<and>
            (mode s = Some TCPInterleaved \<longrightarrow> owner s = Some c2)"
          by (cases "sid2 = sid") auto
      next
        fix sid2 s2
        assume a: "sessions ?srv' sid2 = Some s2"
        show "mode s2 \<noteq> None"
          using a inv_session [OF assms s] inv_session(1) [OF assms, of sid2 s2]
          by (cases "sid2 = sid") auto
        show "sid2 < next_id ?srv'"
          using a inv_session [OF assms s] inv_session(2) [OF assms, of sid2 s2]
          by (cases "sid2 = sid") auto
      qed
      with h show ?thesis by simp
    qed
  qed
qed

lemma registry_inv_teardown:
  assumes "registry_inv srv"
  shows "registry_inv (fst (handle_teardown srv c req))"
  using assms registry_inv_destroy [OF assms]
  by (auto simp: handle_teardown_def split: option.splits)

lemma registry_inv_request:
  assumes "registry_inv srv"
  shows "registry_inv (fst (handle_request srv c req))"
proof (cases "conns srv c")
  case None
  with assms show ?thesis by (simp add: handle_request_def)
next
  case (Some k)
  show ?thesis
  proof (cases "cseq req = None")
    case True
    with Some registry_inv_close [OF assms, of c "Some CSeqMissing"] show ?thesis
      by (cases "close_conn srv c (Some CSeqMissing)") (simp add: handle_request_def)
  next
    case False
    then obtain y where "cseq req = Some y" by auto
    with Some assms registry_inv_setup [OF assms Some, of req] registry_inv_play [OF assms, of c req]
      registry_inv_teardown [OF assms, of c req]
    show ?thesis
      by (cases "req_method req") (simp_all add: handle_request_def)
  qed
qed

lemma registry_inv_step:
  assumes "registry_inv srv"
  shows "registry_inv (fst (step srv i))"
proof (cases i)
  case (Accept c)
  with assms registry_inv_accept [OF assms, of c] show ?thesis by simp
next
  case (Req c req)
  with registry_inv_request [OF assms] show ?thesis by simp
next
  case (Lost c)
  with registry_inv_close [OF assms] show ?thesis by simp
qed

lemma registry_inv_run:
  assumes "registry_inv srv"
  shows "registry_inv (fst (run srv is))"
  using assms
proof (induction "is" arbitrary: srv)
  case Nil
  then show ?case by simp
next
  case (Cons i "is")
  from Cons.IH [OF registry_inv_step [OF Cons.prems, of i]] show ?case
    by (simp only: run_Cons_fst)
qed

lemma close_conn_events:
  assumes "conns srv c = Some k"
  shows "\<exists>srv' evs. close_conn srv c err = (srv', evs @ [OnConnClose c err])
      \<and> (evs = [] \<or> (\<exists>sid. evs = [OnSessionClose sid])) \<and> conns srv' c = None"
  using assms
  by (auto simp: close_conn_def Let_def destroy_session_def split: option.splits)

text \<open>
  Claim C2. For every session in TCP-interleaved mode that is owned by a live connection,
  a SETUP that arrives on a different live connection and names the session is answered
  with bad-request and leaves the server, and so the binding of the session, as it was.
  In every state that the server reaches, two live connections bound to the same
  TCP-mode session are the same connection, the owner of the session.
\<close>

theorem two_conn_one_session:
  "(sessions srv sid = Some s \<and> mode s = Some TCPInterleaved \<and> owner s = Some c \<and>
      conns srv c \<noteq> None \<and> conns srv c' \<noteq> None \<and> c' \<noteq> c \<and>
      req_method req = SETUP \<and> cseq req \<noteq> None \<and> session_header req = Some sid \<longrightarrow>
        handle_request srv c' req = (srv, [Response c' StatusBadRequest]))
   \<and> (srv' = fst (run new_server ins) \<and> sessions srv' sid = Some s' \<and>
      mode s' = Some TCPInterleaved \<and> bound_to srv' sid c1 \<and> bound_to srv' sid c2 \<longrightarrow>
        c1 = c2 \<and> owner s' = Some c1)"
proof (intro conjI impI)
  assume a: "sessions srv sid = Some s \<and> mode s = Some TCPInterleaved \<and> owner s = Some c \<and>
      conns srv c \<noteq> None \<and> conns srv c' \<noteq> None \<and> c' \<noteq> c \<and>
      req_method req = SETUP \<and> cseq req \<noteq> None \<and> session_header req = Some sid"
  then obtain k' where k': "conns srv c' = Some k'" by auto
  from a have "handle_setup srv c' k' req = (srv, [Response c' StatusBadRequest])"
    by (intro handle_setup_other_conn [of srv sid s c]) simp_all
  with a k' show "handle_request srv c' req = (srv, [Response c' StatusBadRequest])"
    by (auto simp: handle_request_def)
next
  assume a: "srv' = fst (run new_server ins) \<and> sessions srv' sid = Some s' \<and>
      mode s' = Some TCPInterleaved \<and> bound_to srv' sid c1 \<and> bound_to srv' sid c2"
  then have inv: "registry_inv srv'"
    using registry_inv_run [OF registry_inv_new] by simp
  from a obtain k1 k2 where k: "conns srv' c1 = Some k1" "bound k1 = Some sid"
    "conns srv' c2 = Some k2" "bound k2 = Some sid"
    by (auto simp: bound_to_def split: option.splits)
  from inv_bound [OF inv k(1,2)] inv_bound [OF inv k(3,4)] a
  have o: "owner s' = Some c1" "owner s' = Some c2" by auto
  then show "c1 = c2" by simp
  from o show "owner s' = Some c1" by simp
qed

text \<open>
  Claim C7. For every request without the sequence-number header on a live connection,
  the server first sends a bad-request response and then closes the connection: the
  connection-close callback reports \<open>CSeqMissing\<close> as the last event (after the close
  of the session that the connection owned, if any), the connection is no longer live,
  and a later request on it is not served.
\<close>

theorem cseq_missing_fatal:
  "conns srv c \<noteq> None \<and> cseq req = None \<longrightarrow>
     (\<exists>srv' evs.
        handle_request srv c req =
          (srv', Response c StatusBadRequest # evs @ [OnConnClose c (Some CSeqMissing)])
        \<and> (evs = [] \<or> (\<exists>sid. evs = [OnSessionClose sid]))
        \<and> conns srv' c = None
        \<and> handle_request srv' c req' = (srv', []))"
proof
  assume a: "conns srv c \<noteq> None \<and> cseq req = None"
  then obtain k where k: "conns srv c = Some k" by auto
  from close_conn_events [OF k, of "Some CSeqMissing"] obtain srv' evs where
    c: "close_conn srv c (Some CSeqMissing) = (srv', evs @ [OnConnClose c (Some CSeqMissing)])"
    "evs = [] \<or> (\<exists>sid. evs = [OnSessionClose sid])" "conns srv' c = None"
    by blast
  from a k c(1) have "handle_request srv c req =
      (srv', Response c StatusBadRequest # evs @ [OnConnClose c (Some CSeqMissing)])"
    by (simp add: handle_request_def)
  moreover from c(3) have "handle_request srv' c req' = (srv', [])"
    by (simp add: handle_request_def)
  ultimately show "\<exists>srv' evs.
        handle_request srv c req =
          (srv', Response c StatusBadRequest # evs @ [OnConnClose c (Some CSeqMissing)])
        \<and> (evs = [] \<or> (\<exists>sid. evs = [OnSessionClose sid]))
        \<and> conns srv' c = None
        \<and> handle_request srv' c req' = (srv', [])"
    using c(2,3) by blast
qed

subsection \<open>The test of two connections and one session, and a request without sequence number\<close>

lemmas server_eval = two_conn_server_def two_conn_inputs_def new_server_def accept_def
  handle_request_def handle_setup_def handle_play_def setup_req_def play_req_def
  setup_guard_def setup_session_def Let_def

lemma two_conn_server_sessions: "sessions two_conn_server 0 = Some played_session"
  by (simp add: server_eval played_session_def)

lemma two_conn_server_conns:
  "conns two_conn_server 5 = Some \<lparr>bound = Some 0\<rparr>" "conns two_conn_server 6 = Some \<lparr>bound = None\<rparr>"
  by (simp_all add: server_eval)

theorem two_conn_one_session_witness:
  "sessions two_conn_server 0 = Some played_session
   \<and> handle_request two_conn_server 6 (setup_req (Some 0)) =
       (two_conn_server, [Response 6 StatusBadRequest])
   \<and> bound_to two_conn_server 0 5 \<and> owner played_session = Some 5"
proof -
  have b: "bound_to two_conn_server 0 5"
    by (simp add: bound_to_def two_conn_server_conns)
  have r: "req_method (setup_req (Some 0)) = SETUP" "cseq (setup_req (Some 0)) \<noteq> None"
    "session_header (setup_req (Some 0)) = Some 0"
    by (simp_all add: setup_req_def)
  have p: "mode played_session = Some TCPInterleaved" "owner played_session = Some 5"
    by (simp_all add: played_session_def)
  from two_conn_one_session [where srv = two_conn_server and sid = 0 and s = played_session
      and c = 5 and c' = 6 and req = "setup_req (Some 0)" and srv' = two_conn_server
      and ins = two_conn_inputs and s' = played_session and ?c1.0 = 5 and ?c2.0 = 5]
    two_conn_server_sessions two_conn_server_conns b r p
  show ?thesis by (simp add: two_conn_server_def)
qed

theorem cseq_missing_fatal_witness:
  "handle_request (accept new_server 5) 5 options_no_cseq =
     (new_server, [Response 5 StatusBadRequest, OnConnClose 5 (Some CSeqMissing)])
   \<and> handle_request new_server 5 (setup_req None) = (new_server, [])"
proof -
  have a: "conns (accept new_server 5) 5 \<noteq> None" "cseq options_no_cseq = None"
    by (simp_all add: accept_def options_no_cseq_def)
  have h: "handle_request (accept new_server 5) 5 options_no_cseq =
     (new_server, [Response 5 StatusBadRequest, OnConnClose 5 (Some CSeqMissing)])"
    by (simp add: handle_request_def close_conn_def options_no_cseq_def Let_def accept_def
        new_server_def)
  from cseq_missing_fatal [where srv = "accept new_server 5" and c = 5 and req = options_no_cseq
      and req' = "setup_req None"] a h
  show ?thesis by auto
qed

end
